theory Spec2Isabelle
  imports
    Main
    "HOL-Library.Multiset"
    "HOL-Library.List_Lexorder"
    "HOL-Library.Char_ord"
    "HOL-Library.AList"
    "HOL-Library.Sublist"
    "HOL-Library.Word"
begin

section \<open>Errors\<close>

text \<open>
  The Python exceptions that the modelled functions raise. A function that can raise
  returns \<open>error + 'a\<close>, with \<open>Inl\<close> for the exception.
\<close>

datatype error = TypeError | ValueError | IndexError | KeyError | OverflowError

section \<open>Burrows-Wheeler transform (burrows_wheeler.py)\<close>

text \<open>
  A Python \<open>str\<close> is a sequence of code points, compared lexicographically by code point
  (a proper prefix is smaller). The model takes the symbols from any linear order
  \<open>'a\<close>; lists over it are ordered lexicographically (\<open>List_Lexorder\<close>).
  \<open>list.sort()\<close> on strings is \<open>sort\<close>: equal strings are identical, so the sorted
  list is determined by its elements.
\<close>

record 'a BWTTransformDict =
  bwt_string :: "'a list"
  idx_original_string :: int

text \<open>\<open>[s[i:] + s[:i] for i in range(len(s))]\<close>\<close>

definition all_rotations :: "'a list \<Rightarrow> 'a list list" where
  "all_rotations s = map (\<lambda>i. drop i s @ take i s) [0..<length s]"

text \<open>\<open>list.index(x)\<close>: the first position of \<open>x\<close>, ValueError when there is none.\<close>

fun list_index :: "'a list \<Rightarrow> 'a \<Rightarrow> error + nat" where
  "list_index [] x = Inl ValueError"
| "list_index (y # ys) x =
     (if y = x then Inr 0
      else case list_index ys x of Inl e \<Rightarrow> Inl e | Inr i \<Rightarrow> Inr (Suc i))"

text \<open>
  \<open>bwt_transform\<close>. The \<open>isinstance\<close> check is the type of the argument. Every rotation
  of a non-empty string is non-empty, so \<open>word[-1]\<close> is \<open>last word\<close>.
\<close>

definition bwt_transform :: "'a::linorder list \<Rightarrow> error + 'a BWTTransformDict" where
  "bwt_transform s =
     (if s = [] then Inl ValueError
      else
        let rotations = sort (all_rotations s) in
        case list_index rotations s of
          Inl e \<Rightarrow> Inl e
        | Inr i \<Rightarrow> Inr \<lparr>bwt_string = map last rotations, idx_original_string = int i\<rparr>)"

text \<open>
  One round of the outer loop of \<open>reverse_bwt\<close>: every row \<open>i\<close> gets \<open>bwt_string[i]\<close>
  in front, then the rows are sorted. The rows and \<open>bwt_string\<close> have the same length
  throughout, so the loop over \<open>range(len(bwt_string))\<close> is a \<open>map2\<close>.
\<close>

definition prepend_sort :: "'a::linorder list \<Rightarrow> 'a list list \<Rightarrow> 'a list list" where
  "prepend_sort bwt rows = sort (map2 (#) bwt rows)"

fun rounds :: "nat \<Rightarrow> 'a::linorder list \<Rightarrow> 'a list list \<Rightarrow> 'a list list" where
  "rounds 0 bwt rows = rows"
| "rounds (Suc k) bwt rows = rounds k bwt (prepend_sort bwt rows)"

text \<open>
  \<open>reverse_bwt\<close>, with the index already an integer (\<open>int(idx_original_string)\<close> is the
  identity on integers). The checks are in the order of the source.
\<close>

definition reverse_bwt :: "'a::linorder list \<Rightarrow> int \<Rightarrow> error + 'a list" where
  "reverse_bwt bwt idx =
     (if bwt = [] then Inl ValueError
      else if idx < 0 then Inl ValueError
      else if idx \<ge> int (length bwt) then Inl ValueError
      else
        let ordered_rotations = rounds (length bwt) bwt (replicate (length bwt) [])
        in Inr (ordered_rotations ! nat idx))"

text \<open>Moving the last symbol to the front; used to state facts about the rows.\<close>

definition rotr :: "'a list \<Rightarrow> 'a list" where
  "rotr r = last r # butlast r"

section \<open>Huffman coding (huffman.py)\<close>

text \<open>
  A Python \<open>dict\<close> whose order is observed (\<open>return_key\<close> scans it, \<open>parse_file\<close>
  sorts its items stably) is an association list in insertion order:
  \<open>d[k] = v\<close> is \<open>AList.update k v d\<close> (an existing key keeps its place, a new one goes
  to the end), \<open>k in d\<close> and \<open>d[k]\<close> are \<open>map_of d k\<close>, \<open>d.items()\<close> is the list.
  Symbols and codes are strings.
\<close>

record Letter =
  letter :: string
  freq :: int
  bitstring :: "(string \<times> string) list"

text \<open>A node of the tree is a \<open>Letter\<close> or a \<open>TreeNode(freq, left, right)\<close>.\<close>

datatype node = Leaf Letter | TreeNode int node node

fun node_freq :: "node \<Rightarrow> int" where
  "node_freq (Leaf l) = freq l"
| "node_freq (TreeNode f left right) = f"

record HuffmanDict =
  Huf_encode :: "string list"
  Huf_letters :: "(string \<times> string) list"

text \<open>The loop of \<open>parse_file\<close> that counts the symbols.\<close>

definition count_chars :: "string list \<Rightarrow> (string \<times> int) list" where
  "count_chars raw_file_list =
     fold (\<lambda>c chars.
             AList.update c (case map_of chars c of Some n \<Rightarrow> n + 1 | None \<Rightarrow> 1) chars)
       raw_file_list []"

text \<open>\<open>sorted(..., key=lambda x: x.freq)\<close> is stable, as \<open>sort_key\<close> is.\<close>

definition parse_file :: "string list \<Rightarrow> node list" where
  "parse_file raw_file_list =
     sort_key node_freq
       (map (\<lambda>(c, f). Leaf \<lparr>letter = c, freq = f, bitstring = []\<rparr>) (count_chars raw_file_list))"

text \<open>
  \<open>build_tree\<close>: while more than one node is left, the first two are popped, joined,
  appended and the list is sorted again by frequency (stably). \<open>response[0]\<close> on the
  empty list raises IndexError.
\<close>

function build_tree :: "node list \<Rightarrow> error + node" where
  "build_tree [] = Inl IndexError"
| "build_tree [root] = Inr root"
| "build_tree (left # right # response) =
     build_tree
       (sort_key node_freq
          (response @ [TreeNode (node_freq left + node_freq right) left right]))"
  by pat_completeness auto
termination
  by (relation "measure length") auto

text \<open>
  \<open>traverse_tree\<close> stores the path in the letter's own \<open>bitstring\<close> dictionary and
  returns the letters from left to right. Every letter object occurs once in the tree,
  so the mutation is an update of the returned copy.
\<close>

fun traverse_tree :: "node \<Rightarrow> string \<Rightarrow> Letter list" where
  "traverse_tree (Leaf l) bs = [l\<lparr>bitstring := AList.update (letter l) bs (bitstring l)\<rparr>]"
| "traverse_tree (TreeNode f left right) bs =
     traverse_tree left (bs @ ''0'') @ traverse_tree right (bs @ ''1'')"

text \<open>The dictionary comprehension of \<open>huffman_encode\<close>.\<close>

definition letters_dict :: "Letter list \<Rightarrow> (string \<times> string) list" where
  "letters_dict ls = fold (\<lambda>(k, v). AList.update k v) (concat (map bitstring ls)) []"

text \<open>The loop \<open>encode_list.append(letters[c])\<close>; a missing key raises KeyError.\<close>

fun encode_list :: "(string \<times> string) list \<Rightarrow> string list \<Rightarrow> error + string list" where
  "encode_list letters [] = Inr []"
| "encode_list letters (c # cs) =
     (case map_of letters c of
        None \<Rightarrow> Inl KeyError
      | Some v \<Rightarrow>
          (case encode_list letters cs of Inl e \<Rightarrow> Inl e | Inr vs \<Rightarrow> Inr (v # vs)))"

definition huffman_encode :: "string list \<Rightarrow> error + HuffmanDict" where
  "huffman_encode raw_file_list =
     (case build_tree (parse_file raw_file_list) of
        Inl e \<Rightarrow> Inl e
      | Inr root \<Rightarrow>
          let letters = letters_dict (traverse_tree root []) in
          case encode_list letters raw_file_list of
            Inl e \<Rightarrow> Inl e
          | Inr codes \<Rightarrow> Inr \<lparr>Huf_encode = codes, Huf_letters = letters\<rparr>)"

text \<open>\<open>return_key\<close>: the first key whose value is the item, else a fixed string.\<close>

fun return_key :: "(string \<times> string) list \<Rightarrow> string \<Rightarrow> string" where
  "return_key [] item = ''Key Not Found''"
| "return_key ((key, val) # huf_letters) item =
     (if val = item then key else return_key huf_letters item)"

definition huffman_decode :: "HuffmanDict \<Rightarrow> string list" where
  "huffman_decode huf_file = map (return_key (Huf_letters huf_file)) (Huf_encode huf_file)"

text \<open>
  For the proofs: the letters of a tree from left to right, the table that
  \<open>traverse_tree\<close> makes of a tree whose letters have empty \<open>bitstring\<close> dictionaries,
  two table entries neither of whose codes is a prefix of the other, and the letter
  that \<open>parse_file\<close> makes of a counted symbol.
\<close>

fun leaves :: "node \<Rightarrow> Letter list" where
  "leaves (Leaf l) = [l]"
| "leaves (TreeNode f left right) = leaves left @ leaves right"

fun codes :: "node \<Rightarrow> string \<Rightarrow> (string \<times> string) list" where
  "codes (Leaf l) bs = [(letter l, bs)]"
| "codes (TreeNode f left right) bs = codes left (bs @ ''0'') @ codes right (bs @ ''1'')"

definition unrelated :: "string \<times> string \<Rightarrow> string \<times> string \<Rightarrow> bool" where
  "unrelated a b = (\<not> prefix (snd a) (snd b) \<and> \<not> prefix (snd b) (snd a))"

definition new_letter :: "string \<times> int \<Rightarrow> Letter" where
  "new_letter = (\<lambda>(c, f). \<lparr>letter = c, freq = f, bitstring = []\<rparr>)"

section \<open>Lempel-Ziv bit coder and file framing (lempel_ziv.py)\<close>

text \<open>
  Bit strings are strings over \<open>0\<close> and \<open>1\<close>. The lexicon is a dictionary that is only
  looked up by key and updated on all keys at once, so it is a map.
\<close>

type_synonym lexicon = "string \<rightharpoonup> string"

definition bits :: "string \<Rightarrow> bool" where
  "bits s = (set s \<subseteq> {CHR ''0'', CHR ''1''})"

definition bit_char :: "nat \<Rightarrow> char" where
  "bit_char d = (if d = 0 then CHR ''0'' else CHR ''1'')"

text \<open>\<open>bin(n)[2:]\<close>\<close>

fun bin :: "nat \<Rightarrow> string" where
  "bin n = (if n < 2 then [bit_char n] else bin (n div 2) @ [bit_char (n mod 2)])"

declare bin.simps [simp del]

text \<open>
  \<open>math.log2(index).is_integer()\<close> tests whether \<open>index\<close> is a power of two. The model
  is the exact test. The floating-point logarithm agrees with it while \<open>index\<close> is
  below \<open>2 ^ 46\<close> (its distance from a whole number is then several units in the last
  place), which is more lexicon entries than a run can hold; beyond that the model says
  nothing about the code. \<open>math.log2(0)\<close> raises ValueError.
\<close>

fun is_pow2 :: "nat \<Rightarrow> bool" where
  "is_pow2 n = (if n < 2 then n = 1 else even n \<and> is_pow2 (n div 2))"

declare is_pow2.simps [simp del]

definition lexicon0 :: lexicon where
  "lexicon0 = [''0'' \<mapsto> ''0'', ''1'' \<mapsto> ''1'']"

text \<open>
  \<open>add_key_to_lexicon\<close>: \<open>lexicon.pop\<close> raises KeyError on a missing key; the loop puts
  a \<open>0\<close> in front of every value.
\<close>

definition add_key_to_lexicon ::
    "lexicon \<Rightarrow> string \<Rightarrow> nat \<Rightarrow> string \<Rightarrow> error + lexicon" where
  "add_key_to_lexicon lexicon curr_string index last_match_id =
     (if lexicon curr_string = None then Inl KeyError
      else if index = 0 then Inl ValueError
      else
        let lexicon = lexicon(curr_string := None);
            lexicon = lexicon(curr_string @ ''0'' \<mapsto> last_match_id);
            lexicon = (if is_pow2 index
                       then (\<lambda>curr_key. map_option (\<lambda>v. ''0'' @ v) (lexicon curr_key))
                       else lexicon)
        in Inr (lexicon(curr_string @ ''1'' \<mapsto> bin index)))"

text \<open>
  The \<open>for\<close> loop of \<open>compress_data\<close> over the remaining bits, with the lexicon, the
  result, the candidate and the index as state.
\<close>

fun compress_loop ::
    "string \<Rightarrow> lexicon \<Rightarrow> string \<Rightarrow> string \<Rightarrow> nat \<Rightarrow> error + (lexicon \<times> string \<times> string)" where
  "compress_loop [] lexicon result curr_string index = Inr (lexicon, result, curr_string)"
| "compress_loop (b # data_bits) lexicon result curr_string index =
     (let curr_string = curr_string @ [b] in
      case lexicon curr_string of
        None \<Rightarrow> compress_loop data_bits lexicon result curr_string index
      | Some last_match_id \<Rightarrow>
          (case add_key_to_lexicon lexicon curr_string index last_match_id of
             Inl e \<Rightarrow> Inl e
           | Inr lexicon' \<Rightarrow>
               compress_loop data_bits lexicon' (result @ last_match_id) [] (index + 1)))"

text \<open>
  The \<open>while\<close> loop that pads the last candidate with \<open>0\<close> until it is in the lexicon.
  It need not end (the candidate may be no prefix of any key), so not returning is
  \<open>None\<close>.
\<close>

partial_function (option) pad_candidate :: "lexicon \<Rightarrow> string \<Rightarrow> string option" where
  "pad_candidate lexicon curr_string =
     (if curr_string \<noteq> [] \<and> lexicon curr_string = None
      then pad_candidate lexicon (curr_string @ ''0'')
      else Some curr_string)"

declare pad_candidate.simps [code]

definition compress_data :: "string \<Rightarrow> (error + string) option" where
  "compress_data data_bits =
     (case compress_loop data_bits lexicon0 [] [] 2 of
        Inl e \<Rightarrow> Some (Inl e)
      | Inr (lexicon, result, curr_string) \<Rightarrow>
          (case pad_candidate lexicon curr_string of
             None \<Rightarrow> None
           | Some curr_string \<Rightarrow>
               if curr_string \<noteq> [] then
                 (case lexicon curr_string of
                    None \<Rightarrow> Some (Inl KeyError)
                  | Some last_match_id \<Rightarrow> Some (Inr (result @ last_match_id)))
               else Some (Inr result)))"

text \<open>
  The key change of \<open>decompress_data\<close> at a power of two: every key gets a \<open>0\<close> in
  front.
\<close>

definition widen_keys :: "lexicon \<Rightarrow> lexicon" where
  "widen_keys lexicon =
     (\<lambda>k. case k of [] \<Rightarrow> None | c # curr_key \<Rightarrow> if c = CHR ''0'' then lexicon curr_key else None)"

text \<open>
  The loop of \<open>decompress_data\<close>. Its index starts at 2 and grows, so \<open>math.log2\<close> does
  not raise; the lookups are guarded by the membership test.
\<close>

fun decompress_loop :: "string \<Rightarrow> lexicon \<Rightarrow> string \<Rightarrow> string \<Rightarrow> nat \<Rightarrow> string" where
  "decompress_loop [] lexicon result curr_string index = result"
| "decompress_loop (b # data_bits) lexicon result curr_string index =
     (let curr_string = curr_string @ [b] in
      case lexicon curr_string of
        None \<Rightarrow> decompress_loop data_bits lexicon result curr_string index
      | Some last_match_id \<Rightarrow>
          let lexicon = lexicon(curr_string \<mapsto> last_match_id @ ''0'');
              lexicon = (if is_pow2 index then widen_keys lexicon else lexicon);
              lexicon = lexicon(bin index \<mapsto> last_match_id @ ''1'')
          in decompress_loop data_bits lexicon (result @ last_match_id) [] (index + 1))"

definition decompress_data :: "string \<Rightarrow> string" where
  "decompress_data data_bits = decompress_loop data_bits lexicon0 [] [] 2"

text \<open>
  \<open>add_file_length\<close>, with the size of the source file (\<open>os.path.getsize\<close>) as an
  argument.
\<close>

definition add_file_length :: "nat \<Rightarrow> string \<Rightarrow> string" where
  "add_file_length file_length compressed =
     (let file_length_binary = bin file_length;
          length_length = length file_length_binary
      in replicate (length_length - 1) CHR ''0'' @ file_length_binary @ compressed)"

text \<open>The loop of \<open>remove_prefix\<close> that counts the characters before the first \<open>1\<close>.\<close>

fun leading_count :: "string \<Rightarrow> nat" where
  "leading_count [] = 0"
| "leading_count (ch # data_bits) =
     (if ch = CHR ''1'' then 0 else leading_count data_bits + 1)"

text \<open>A slice beyond the end of a string is empty, as \<open>drop\<close> is.\<close>

definition remove_prefix :: "string \<Rightarrow> string" where
  "remove_prefix data_bits =
     (let counter = leading_count data_bits;
          data_bits = drop counter data_bits
      in drop (counter + 1) data_bits)"

text \<open>
  Files are lists of bytes. \<open>int(elem, 2)\<close> is modelled on strings of binary digits and
  raises ValueError on the empty string and on any other character (Python also
  accepts a sign, blanks, underscores and a \<open>0b\<close> prefix, which no bit string has);
  \<open>to_bytes(1, ...)\<close> raises OverflowError from 256 on.
\<close>

definition bin_value :: "string \<Rightarrow> nat" where
  "bin_value elem = foldl (\<lambda>v c. 2 * v + (if c = CHR ''1'' then 1 else 0)) 0 elem"

definition int_base2 :: "string \<Rightarrow> error + nat" where
  "int_base2 elem =
     (if elem = [] \<or> \<not> bits elem then Inl ValueError else Inr (bin_value elem))"

definition to_byte :: "string \<Rightarrow> error + 8 word" where
  "to_byte elem =
     (case int_base2 elem of
        Inl e \<Rightarrow> Inl e
      | Inr v \<Rightarrow> if v < 256 then Inr (word_of_nat v) else Inl OverflowError)"

fun to_bytes :: "string list \<Rightarrow> error + 8 word list" where
  "to_bytes [] = Inr []"
| "to_bytes (elem # elems) =
     (case to_byte elem of
        Inl e \<Rightarrow> Inl e
      | Inr w \<Rightarrow> (case to_bytes elems of Inl e \<Rightarrow> Inl e | Inr ws \<Rightarrow> Inr (w # ws)))"

text \<open>\<open>[to_write[i : i + 8] for i in range(0, len(to_write), 8)]\<close>\<close>

definition byte_chunks :: "string \<Rightarrow> string list" where
  "byte_chunks to_write =
     map (\<lambda>j. take 8 (drop (8 * j) to_write)) [0..<(length to_write + 7) div 8]"

text \<open>
  The \<open>if\<close> of \<open>write_file_binary\<close> on the last chunk: a full last chunk is followed
  by the byte \<open>10000000\<close>, a shorter one is filled with \<open>1\<close> and zeros.
\<close>

definition pad_last :: "string list \<Rightarrow> string list" where
  "pad_last result_byte_array =
     (let last_elem = last result_byte_array in
      if length last_elem mod 8 = 0 then result_byte_array @ [''10000000'']
      else butlast result_byte_array
           @ [last_elem @ ''1'' @ replicate (8 - length last_elem - 1) CHR ''0''])"

text \<open>
  \<open>write_file_binary\<close> returns the bytes it writes. \<open>result_byte_array[-1]\<close> raises
  IndexError when there is nothing to write.
\<close>

definition write_file_binary :: "string \<Rightarrow> error + 8 word list" where
  "write_file_binary to_write =
     (let result_byte_array = byte_chunks to_write in
      if result_byte_array = [] then Inl IndexError
      else to_bytes (pad_last result_byte_array))"

text \<open>\<open>f"{dat:08b}"\<close>: the binary digits of a byte, filled with zeros to eight.\<close>

definition format_08b :: "8 word \<Rightarrow> string" where
  "format_08b dat = (let b = bin (unat dat) in replicate (8 - length b) CHR ''0'' @ b)"

definition read_file_binary :: "8 word list \<Rightarrow> string" where
  "read_file_binary data = concat (map format_08b data)"

text \<open>
  Framing as \<open>lz_compress\<close> does it (\<open>add_file_length\<close>, then \<open>write_file_binary\<close>) and
  unframing as \<open>lz_decompress\<close> does it (\<open>read_file_binary\<close>, then \<open>remove_prefix\<close>).
\<close>

definition frame :: "string \<Rightarrow> nat \<Rightarrow> error + 8 word list" where
  "frame payload_bits file_length = write_file_binary (add_file_length file_length payload_bits)"

definition unframe :: "8 word list \<Rightarrow> string" where
  "unframe data = remove_prefix (read_file_binary data)"

section \<open>Lempel-Ziv: what is left at the end, and the invariant of the two lexicons\<close>

text \<open>
  The candidate that is left when the \<open>for\<close> loop of \<open>compress_data\<close> ends, and the
  candidate after the \<open>while\<close> loop has padded it.
\<close>

definition leftover :: "string \<Rightarrow> string" where
  "leftover data_bits =
     (case compress_loop data_bits lexicon0 [] [] 2 of
        Inl e \<Rightarrow> []
      | Inr (lexicon, result, curr_string) \<Rightarrow> curr_string)"

definition padded :: "string \<Rightarrow> string option" where
  "padded data_bits =
     (case compress_loop data_bits lexicon0 [] [] 2 of
        Inl e \<Rightarrow> None
      | Inr (lexicon, result, curr_string) \<Rightarrow> pad_candidate lexicon curr_string)"

text \<open>
  For the proofs. A set of keys is prefix free when no key is a prefix of another, and
  complete when every bit string starts with a key or is the beginning of one;
  \<open>split_key\<close> replaces a key by its two extensions, as one step of the coder does.
\<close>

definition prefix_free :: "string set \<Rightarrow> bool" where
  "prefix_free K = (\<forall>c \<in> K. \<forall>c' \<in> K. prefix c c' \<longrightarrow> c = c')"

definition complete :: "string set \<Rightarrow> bool" where
  "complete K = (\<forall>x. bits x \<longrightarrow> (\<exists>c \<in> K. prefix c x) \<or> (\<exists>c \<in> K. strict_prefix x c))"

definition split_key :: "string set \<Rightarrow> string \<Rightarrow> string set" where
  "split_key K c = (K - {c}) \<union> {c @ ''0'', c @ ''1''}"

text \<open>
  The lexicon after one step of \<open>compress_data\<close> (what \<open>add_key_to_lexicon\<close> returns)
  and after one step of \<open>decompress_data\<close>.
\<close>

definition widen_values :: "lexicon \<Rightarrow> lexicon" where
  "widen_values L = (\<lambda>c. map_option (\<lambda>v. ''0'' @ v) (L c))"

definition compress_step :: "lexicon \<Rightarrow> string \<Rightarrow> nat \<Rightarrow> string \<Rightarrow> lexicon" where
  "compress_step L c i k =
     (let L1 = (L(c := None))(c @ ''0'' \<mapsto> k);
          L2 = (if is_pow2 i then widen_values L1 else L1)
      in L2(c @ ''1'' \<mapsto> bin i))"

definition decompress_step :: "lexicon \<Rightarrow> string \<Rightarrow> nat \<Rightarrow> string \<Rightarrow> lexicon" where
  "decompress_step D k i c =
     (let D1 = D(k \<mapsto> c @ ''0'');
          D2 = (if is_pow2 i then widen_keys D1 else D1)
      in D2(bin i \<mapsto> c @ ''1''))"

text \<open>
  The invariant that ties the lexicon \<open>L\<close> of the compressor to the lexicon \<open>D\<close> of the
  decompressor at the same index \<open>i\<close>: they are inverse to each other, all codes have
  the width of \<open>bin (i - 1)\<close> and a value below \<open>i\<close>, and the keys of \<open>L\<close> are
  non-empty, shorter than \<open>i\<close>, prefix free and complete. \<open>no_match\<close> says that no
  beginning of the candidate is a key.
\<close>

definition inverse_lex :: "lexicon \<Rightarrow> lexicon \<Rightarrow> bool" where
  "inverse_lex L D = (\<forall>c k. (L c = Some k) = (D k = Some c))"

definition codes_ok :: "lexicon \<Rightarrow> nat \<Rightarrow> nat \<Rightarrow> bool" where
  "codes_ok D w i = (\<forall>k \<in> dom D. length k = w \<and> bin_value k < i)"

definition lz_inv :: "lexicon \<Rightarrow> lexicon \<Rightarrow> nat \<Rightarrow> bool" where
  "lz_inv L D i =
     (2 \<le> i \<and> inverse_lex L D \<and> codes_ok D (length (bin (i - 1))) i
      \<and> (\<forall>c \<in> dom L. c \<noteq> [] \<and> length c < i) \<and> prefix_free (dom L) \<and> complete (dom L))"

definition no_match :: "lexicon \<Rightarrow> string \<Rightarrow> bool" where
  "no_match L cand = (\<forall>p. p \<noteq> [] \<and> prefix p cand \<longrightarrow> L p = None)"

section \<open>Burrows-Wheeler: the index check\<close>

lemma length_prepend_sort:
  "length rows = length bwt \<Longrightarrow> length (prepend_sort bwt rows) = length bwt"
  by (simp add: prepend_sort_def)

lemma length_rounds:
  "length rows = length bwt \<Longrightarrow> length (rounds k bwt rows) = length bwt"
  by (induction k arbitrary: rows) (simp_all add: length_prepend_sort)

text \<open>
  Claim C7. \<open>reverse_bwt\<close> raises ValueError (the spec's InvalidInput) exactly when the
  index is negative, or at least the length of the string, or the string is empty; in
  every other case it returns a string, and in these cases it returns none.
\<close>

theorem reverse_bwt_invalid_input:
  "((reverse_bwt bwt idx = Inl ValueError) = (idx < 0 \<or> idx \<ge> int (length bwt) \<or> bwt = []))
   \<and> ((\<exists>s. reverse_bwt bwt idx = Inr s) = (\<not> (idx < 0 \<or> idx \<ge> int (length bwt) \<or> bwt = [])))"
  by (auto simp: reverse_bwt_def Let_def)

theorem reverse_bwt_invalid_input_witness:
  "reverse_bwt ''ab'' 2 = Inl ValueError \<and> reverse_bwt ''ab'' (-1) = Inl ValueError
   \<and> reverse_bwt ([] :: string) 0 = Inl ValueError \<and> (\<exists>s. reverse_bwt ''ab'' 1 = Inr s)"
  using reverse_bwt_invalid_input [of "''ab''" 2] reverse_bwt_invalid_input [of "''ab''" "-1"]
    reverse_bwt_invalid_input [of "[] :: string" 0] reverse_bwt_invalid_input [of "''ab''" 1]
  by simp

section \<open>Huffman: decoding an unknown code\<close>

lemma return_key_not_found:
  "item \<notin> snd ` set t \<Longrightarrow> return_key t item = ''Key Not Found''"
  by (induction t item rule: return_key.induct) auto

lemma return_key_found:
  "item \<in> snd ` set t \<Longrightarrow> (return_key t item, item) \<in> set t"
  by (induction t item rule: return_key.induct) auto

text \<open>
  Claim C5, as the code has it. \<open>huffman_decode\<close> raises nothing: its result has one
  entry for every code; a code that is the value of some table entry is decoded to a key
  with that value, and a code that matches no entry is decoded to the string
  \<open>Key Not Found\<close>, after which decoding goes on with the next code.
\<close>

theorem huffman_decode_unknown_code:
  "length (huffman_decode h) = length (Huf_encode h)
   \<and> (\<forall>i < length (Huf_encode h).
        if Huf_encode h ! i \<in> snd ` set (Huf_letters h)
        then (huffman_decode h ! i, Huf_encode h ! i) \<in> set (Huf_letters h)
        else huffman_decode h ! i = ''Key Not Found'')"
  by (simp add: huffman_decode_def return_key_not_found return_key_found)

text \<open>The theorem at a table with one entry and a code list whose second code is unknown.\<close>

theorem huffman_decode_unknown_code_witness:
  "(1::nat) < length [''0'', ''1''] \<and> ''1'' \<notin> snd ` set [(''a'', ''0'')]
   \<and> huffman_decode \<lparr>Huf_encode = [''0'', ''1''], Huf_letters = [(''a'', ''0'')]\<rparr> ! 1
       = ''Key Not Found''"
  using huffman_decode_unknown_code
    [of "\<lparr>Huf_encode = [''0'', ''1''], Huf_letters = [(''a'', ''0'')]\<rparr>"]
  by simp

text \<open>
  Claim C5 as stated fails: the code \<open>1\<close> matches no entry of the table
  \<open>{a: 0}\<close>, and \<open>huffman_decode\<close> returns a list with a substitute entry.
\<close>

theorem huffman_decode_unknown_code_counterexample:
  "huffman_decode \<lparr>Huf_encode = [''1''], Huf_letters = [(''a'', ''0'')]\<rparr> = [''Key Not Found'']"
  by (simp add: huffman_decode_def)

section \<open>Huffman: a single distinct symbol\<close>

lemma count_chars_same:
  "fold (\<lambda>c chars. AList.update c (case map_of chars c of Some n \<Rightarrow> n + 1 | None \<Rightarrow> 1) chars)
     (replicate n c) [(c, m)] = [(c, m + int n)]"
  by (induction n arbitrary: m) (simp_all del: fold_replicate)

lemma count_chars_replicate:
  "count_chars (replicate (Suc n) c) = [(c, 1 + int n)]"
  using count_chars_same [of n c 1] by (simp add: count_chars_def del: fold_replicate)

lemma encode_list_single:
  "encode_list [(c, v)] (replicate n c) = Inr (replicate n v)"
  by (induction n) auto

lemma huffman_encode_replicate:
  "huffman_encode (replicate (Suc n) c)
     = Inr \<lparr>Huf_encode = replicate (Suc n) [], Huf_letters = [(c, [])]\<rparr>"
  using encode_list_single [of c "[]" "Suc n"]
  by (simp add: huffman_encode_def parse_file_def count_chars_replicate letters_dict_def
      del: replicate_Suc replicate.simps)

text \<open>
  Claim C6, as the code has it. For a non-empty list whose symbols are all equal,
  \<open>huffman_encode\<close> returns a table with one entry, which gives the sole symbol the
  empty code (the root of the tree is the letter itself, reached by the empty path), and
  a code list of empty codes; \<open>huffman_decode\<close> of this result is the input.
\<close>

theorem huffman_single_symbol:
  assumes "s \<noteq> []" and "\<forall>x \<in> set s. x = c"
  shows "huffman_encode s = Inr \<lparr>Huf_encode = replicate (length s) [], Huf_letters = [(c, [])]\<rparr>
         \<and> huffman_decode \<lparr>Huf_encode = replicate (length s) [], Huf_letters = [(c, [])]\<rparr> = s"
proof -
  from assms(2) have s: "replicate (length s) c = s"
    by (simp add: replicate_length_same)
  from assms(1) obtain n where n: "length s = Suc n"
    by (cases s) auto
  have "huffman_encode (replicate (length s) c)
      = Inr \<lparr>Huf_encode = replicate (length s) [], Huf_letters = [(c, [])]\<rparr>"
    unfolding n by (rule huffman_encode_replicate)
  moreover have "huffman_decode \<lparr>Huf_encode = replicate (length s) [], Huf_letters = [(c, [])]\<rparr>
      = replicate (length s) c"
    by (simp add: huffman_decode_def)
  ultimately show ?thesis using s by simp
qed

text \<open>The theorem at the list \<open>[a, a]\<close>.\<close>

theorem huffman_single_symbol_witness:
  "[''a'', ''a''] \<noteq> [] \<and> set [''a'', ''a''] = {''a''}
   \<and> huffman_encode [''a'', ''a''] = Inr \<lparr>Huf_encode = [[], []], Huf_letters = [(''a'', [])]\<rparr>
   \<and> huffman_decode \<lparr>Huf_encode = [[], []], Huf_letters = [(''a'', [])]\<rparr> = [''a'', ''a'']"
  using huffman_single_symbol [of "[''a'', ''a'']" "''a''"] by simp

text \<open>
  Claim C6 as stated fails: on the list \<open>[a]\<close> the sole symbol gets the empty code, not
  the code \<open>0\<close>.
\<close>

theorem huffman_single_symbol_counterexample:
  "huffman_encode [''a''] = Inr \<lparr>Huf_encode = [[]], Huf_letters = [(''a'', [])]\<rparr>
   \<and> huffman_encode [''a''] \<noteq> Inr \<lparr>Huf_encode = [''0''], Huf_letters = [(''a'', ''0'')]\<rparr>"
  by (simp add: huffman_encode_def parse_file_def count_chars_def letters_dict_def)

section \<open>Framing: removing the length prefix\<close>

lemma leading_count_before_one:
  "CHR ''1'' \<notin> set zs \<Longrightarrow> leading_count (zs @ CHR ''1'' # rest) = length zs"
  by (induction zs) auto

lemma leading_count_no_one:
  "CHR ''1'' \<notin> set x \<Longrightarrow> leading_count x = length x"
  by (induction x) auto

lemma remove_prefix_no_one:
  "CHR ''1'' \<notin> set x \<Longrightarrow> remove_prefix x = []"
  by (simp add: remove_prefix_def leading_count_no_one)

lemma remove_prefix_after_one:
  "CHR ''1'' \<notin> set zs \<Longrightarrow> remove_prefix (zs @ CHR ''1'' # rest) = drop (length zs) rest"
  by (simp add: remove_prefix_def leading_count_before_one)

text \<open>
  Claim C9, as the code has it. \<open>remove_prefix\<close> raises nothing. On an input without a
  \<open>1\<close> it returns the empty string. On an input with \<open>c\<close> characters before the first
  \<open>1\<close> it returns what follows the next \<open>c\<close> characters after that \<open>1\<close>, which is the
  empty string when the input has fewer bits than the prefix states.
\<close>

theorem remove_prefix_never_fails:
  "(CHR ''1'' \<notin> set x \<longrightarrow> remove_prefix x = [])
   \<and> (CHR ''1'' \<notin> set zs \<longrightarrow>
        remove_prefix (zs @ CHR ''1'' # rest) = drop (length zs) rest)"
  by (simp add: remove_prefix_no_one remove_prefix_after_one)

text \<open>The theorem at \<open>000\<close> (no \<open>1\<close>) and at \<open>0010\<close> (one bit where two are stated).\<close>

theorem remove_prefix_never_fails_witness:
  "CHR ''1'' \<notin> set ''000'' \<and> remove_prefix ''000'' = []
   \<and> CHR ''1'' \<notin> set ''00''
   \<and> remove_prefix (''00'' @ CHR ''1'' # ''0'') = drop (length ''00'') ''0''"
  using remove_prefix_never_fails [of "''000''" "''00''" "''0''"] by simp

text \<open>
  Claim C9 as stated fails: \<open>remove_prefix\<close> returns the empty string on \<open>000\<close>, which
  has no \<open>1\<close>, and on \<open>00010\<close>, which states a length of four bits and has two; so does
  unframing the one-byte files \<open>00000000\<close> and \<open>00000001\<close>.
\<close>

theorem remove_prefix_silent_counterexample:
  "remove_prefix ''000'' = [] \<and> remove_prefix ''00010'' = []
   \<and> unframe [0] = [] \<and> unframe [1] = []"
  by code_simp

section \<open>Burrows-Wheeler: the round trip\<close>

text \<open>
  The sorted rotations are closed under moving the last symbol to the front, so after
  \<open>k\<close> rounds the rows of \<open>reverse_bwt\<close> are the prefixes of length \<open>k\<close> of the
  sorted rotations, in order.
\<close>

lemma all_rotations_rotate: "all_rotations s = map (\<lambda>i. rotate i s) [0..<length s]"
  by (simp add: all_rotations_def rotate_drop_take)

lemma length_all_rotations: "length (all_rotations s) = length s"
  by (simp add: all_rotations_def)

lemma in_all_rotations_length: "r \<in> set (all_rotations s) \<Longrightarrow> length r = length s"
  by (auto simp: all_rotations_rotate)

lemma self_in_all_rotations:
  assumes "s \<noteq> []"
  shows "s \<in> set (all_rotations s)"
proof -
  have "0 < length (all_rotations s)"
    using assms by (simp add: length_all_rotations)
  moreover have "all_rotations s ! 0 = s"
    using assms by (simp add: all_rotations_def)
  ultimately show ?thesis
    using nth_mem by fastforce
qed

lemma map_rotate1_all_rotations:
  "map rotate1 (all_rotations s) = rotate1 (all_rotations s)"
proof (cases s)
  case Nil
  then show ?thesis by (simp add: all_rotations_def)
next
  case (Cons a t)
  define n where "n = length t"
  have len: "length s = Suc n" by (simp add: Cons n_def)
  have A: "all_rotations s = rotate 0 s # map (\<lambda>i. rotate (Suc i) s) [0..<n]"
    unfolding all_rotations_rotate len upt_conv_Cons [OF zero_less_Suc] map_Suc_upt [symmetric]
    by (simp add: comp_def)
  have "map rotate1 (all_rotations s) = map (\<lambda>i. rotate (Suc i) s) [0..<Suc n]"
    unfolding all_rotations_rotate len by (simp add: comp_def)
  also have "\<dots> = map (\<lambda>i. rotate (Suc i) s) [0..<n] @ [rotate (Suc n) s]"
    by simp
  also have "rotate (Suc n) s = rotate 0 s"
    using rotate_id [of "Suc n" s] len by simp
  finally show ?thesis
    unfolding A by simp
qed

lemma rotr_rotate1: "x \<noteq> [] \<Longrightarrow> rotr (rotate1 x) = x"
  by (cases x) (simp_all add: rotr_def)

lemma mset_map_rotr_all_rotations:
  "mset (map rotr (all_rotations s)) = mset (all_rotations s)"
proof -
  let ?A = "all_rotations s"
  have ne: "\<And>r. r \<in> set ?A \<Longrightarrow> r \<noteq> []"
    by (auto simp: all_rotations_rotate)
  have "map rotr (map rotate1 ?A) = map (\<lambda>r. r) ?A"
    unfolding map_map by (rule map_cong) (simp_all add: ne rotr_rotate1)
  then have "map rotr (rotate1 ?A) = ?A"
    by (simp add: map_rotate1_all_rotations)
  then have "mset ?A = mset (map rotr (rotate1 ?A))"
    by simp
  also have "\<dots> = image_mset rotr (mset (rotate1 ?A))"
    by (rule mset_map)
  also have "mset (rotate1 ?A) = mset ?A"
    by (cases ?A) simp_all
  finally show ?thesis
    by simp
qed

lemma take_mono_lex:
  fixes xs ys :: "'a::linorder list"
  shows "xs \<le> ys \<Longrightarrow> take k xs \<le> take k ys"
proof (induction k arbitrary: xs ys)
  case 0
  then show ?case by simp
next
  case (Suc k)
  show ?case
  proof (cases xs)
    case Nil
    then show ?thesis by simp
  next
    case (Cons x xs')
    with Suc.prems obtain y ys' where ys: "ys = y # ys'"
      by (cases ys) auto
    with Cons Suc.prems have "x < y \<or> x = y \<and> xs' \<le> ys'"
      by simp
    then show ?thesis
    proof
      assume "x < y"
      then show ?thesis by (simp add: Cons ys)
    next
      assume "x = y \<and> xs' \<le> ys'"
      then show ?thesis using Suc.IH [of xs' ys'] by (simp add: Cons ys)
    qed
  qed
qed

lemma sort_cong_mset:
  fixes xs ys :: "'a::linorder list"
  assumes "mset xs = mset ys"
  shows "sort xs = sort ys"
  by (rule properties_for_sort) (simp_all add: assms)

lemma take_Suc_rotr: "m < length r \<Longrightarrow> last r # take m r = take (Suc m) (rotr r)"
proof -
  assume m: "m < length r"
  then have "r \<noteq> []" by auto
  then have "take m r = take m (butlast r @ [last r])" by simp
  also have "\<dots> = take m (butlast r)" using m by simp
  finally show ?thesis by (simp add: rotr_def)
qed

lemma sorted_map_take:
  fixes R :: "'a::linorder list list"
  shows "sorted R \<Longrightarrow> sorted (map (take k) R)"
  by (induction R) (auto simp: take_mono_lex)

lemma map2_Cons_map: "map2 (#) (map f R) (map g R) = map (\<lambda>r. f r # g r) R"
  by (induction R) simp_all

lemma prepend_sort_step:
  fixes s :: "'a::linorder list"
  assumes R: "R = sort (all_rotations s)" and m: "m < length s"
  shows "prepend_sort (map last R) (map (take m) R) = map (take (Suc m)) R"
proof -
  have len: "\<And>r. r \<in> set R \<Longrightarrow> length r = length s"
    using R by (simp add: in_all_rotations_length)
  have "map (\<lambda>r. last r # take m r) R = map (\<lambda>r. take (Suc m) (rotr r)) R"
    by (rule map_cong) (simp_all add: take_Suc_rotr len m)
  then have rows: "map2 (#) (map last R) (map (take m) R) = map (take (Suc m)) (map rotr R)"
    by (simp add: map2_Cons_map comp_def)
  have "mset (map rotr R) = mset R"
    using mset_map_rotr_all_rotations [of s] by (simp add: R)
  then have "image_mset (take (Suc m)) (mset (map rotr R)) = image_mset (take (Suc m)) (mset R)"
    by (rule arg_cong)
  then have "mset (map (take (Suc m)) (map rotr R)) = mset (map (take (Suc m)) R)"
    by (simp only: mset_map)
  then have "sort (map (take (Suc m)) (map rotr R)) = sort (map (take (Suc m)) R)"
    by (rule sort_cong_mset)
  moreover have "sorted (map (take (Suc m)) R)"
    by (rule sorted_map_take) (simp add: R)
  ultimately show ?thesis
    by (simp add: prepend_sort_def rows sort_key_id_if_sorted)
qed

lemma rounds_sorted_rotations:
  fixes s :: "'a::linorder list"
  assumes R: "R = sort (all_rotations s)"
  shows "m + k \<le> length s \<Longrightarrow> rounds k (map last R) (map (take m) R) = map (take (m + k)) R"
proof (induction k arbitrary: m)
  case 0
  then show ?case by simp
next
  case (Suc k)
  then have "m < length s" and "Suc m + k \<le> length s" by simp_all
  then show ?case
    using Suc.IH [of "Suc m"] by (simp add: prepend_sort_step [OF R])
qed

lemma list_index_member:
  "x \<in> set xs \<Longrightarrow> \<exists>i. list_index xs x = Inr i \<and> i < length xs \<and> xs ! i = x"
  by (induction xs) auto

lemma rounds_all:
  fixes s :: "'a::linorder list"
  assumes R: "R = sort (all_rotations s)"
  shows "rounds (length s) (map last R) (replicate (length s) []) = R"
proof -
  have len: "\<And>r. r \<in> set R \<Longrightarrow> length r = length s"
    using R by (simp add: in_all_rotations_length)
  have n: "length R = length s" by (simp add: R length_all_rotations)
  have "replicate (length s) [] = map (take 0) R"
    by (simp add: map_replicate_const n)
  then have "rounds (length s) (map last R) (replicate (length s) []) = map (take (0 + length s)) R"
    using rounds_sorted_rotations [OF R, of 0 "length s"] by simp
  also have "\<dots> = R"
    by (rule map_idI) (simp add: len)
  finally show ?thesis .
qed

text \<open>
  Claim C2. For every non-empty string \<open>s\<close>, \<open>bwt_transform\<close> returns a result, and
  \<open>reverse_bwt\<close> applied to its \<open>bwt_string\<close> and \<open>idx_original_string\<close> returns \<open>s\<close>.
\<close>

theorem bwt_round_trip:
  fixes s :: "'a::linorder list"
  assumes "s \<noteq> []"
  shows "\<exists>r. bwt_transform s = Inr r
            \<and> reverse_bwt (bwt_string r) (idx_original_string r) = Inr s"
proof -
  let ?R = "sort (all_rotations s)"
  have "s \<in> set ?R"
    using assms by (simp add: self_in_all_rotations)
  from list_index_member [OF this]
  obtain i where i1: "list_index ?R s = Inr i" and i2: "i < length ?R" and i3: "?R ! i = s"
    by (elim exE conjE)
  have n: "length ?R = length s"
    by (simp add: length_all_rotations)
  have fwd: "bwt_transform s = Inr \<lparr>bwt_string = map last ?R, idx_original_string = int i\<rparr>"
    using assms by (simp add: bwt_transform_def i1)
  have "rounds (length s) (map last ?R) (replicate (length s) []) = ?R"
    by (rule rounds_all) (rule refl)
  moreover have "?R \<noteq> []"
  proof
    assume "?R = []"
    then have "length ?R = 0"
      by (simp only: list.size)
    with n assms show False
      by simp
  qed
  ultimately have "reverse_bwt (map last ?R) (int i) = Inr s"
    using i2 i3 by (simp add: reverse_bwt_def length_all_rotations)
  with fwd show ?thesis
    by simp
qed

text \<open>
  The theorem at the string of the docstring, \<open>a_asa_da_casa\<close>, whose transform is
  \<open>aaaadss_c__aa\<close> with index 3.
\<close>

theorem bwt_round_trip_witness:
  "''a_asa_da_casa'' \<noteq> []
   \<and> bwt_transform ''a_asa_da_casa''
       = Inr \<lparr>bwt_string = ''aaaadss_c__aa'', idx_original_string = 3\<rparr>
   \<and> reverse_bwt ''aaaadss_c__aa'' 3 = Inr ''a_asa_da_casa''"
proof -
  have fwd: "bwt_transform ''a_asa_da_casa''
      = Inr \<lparr>bwt_string = ''aaaadss_c__aa'', idx_original_string = 3\<rparr>"
    by code_simp
  show ?thesis
    using bwt_round_trip [of "''a_asa_da_casa''"] by (simp add: fwd)
qed

section \<open>Bit strings, binary numerals and bytes\<close>

lemma bits_Nil: "bits []"
  by (simp add: bits_def)

lemma bits_Cons: "bits (c # cs) = ((c = CHR ''0'' \<or> c = CHR ''1'') \<and> bits cs)"
  by (auto simp: bits_def)

lemma bits_append: "bits (xs @ ys) = (bits xs \<and> bits ys)"
  by (auto simp: bits_def)

lemma bits_replicate_zero: "bits (replicate k CHR ''0'')"
  by (auto simp: bits_def)

lemma bits_take: "bits xs \<Longrightarrow> bits (take k xs)"
  by (auto simp: bits_def dest: in_set_takeD)

lemma bits_drop: "bits xs \<Longrightarrow> bits (drop k xs)"
  by (auto simp: bits_def dest: in_set_dropD)

lemma bin_small: "n < 2 \<Longrightarrow> bin n = [bit_char n]"
  by (subst bin.simps) simp

lemma bits_bin: "bits (bin n)"
proof (induction n rule: bin.induct)
  case (1 n)
  then show ?case
    by (subst bin.simps) (simp add: bits_append bits_Cons bits_Nil bit_char_def)
qed

lemma bin_starts_with_one: "0 < n \<Longrightarrow> \<exists>rest. bin n = CHR ''1'' # rest"
proof (induction n rule: bin.induct)
  case (1 n)
  show ?case
  proof (cases "n < 2")
    case True
    with "1.prems" have "n = 1" by simp
    then show ?thesis by (simp add: bin_small bit_char_def)
  next
    case False
    then have "0 < n div 2" by simp
    with "1.IH" False obtain rest where "bin (n div 2) = CHR ''1'' # rest" by blast
    with False show ?thesis by (subst bin.simps) simp
  qed
qed

lemma bin_value_snoc:
  "bin_value (xs @ [c]) = 2 * bin_value xs + (if c = CHR ''1'' then 1 else 0)"
  by (simp add: bin_value_def)

lemma bin_value_bound: "bin_value xs < 2 ^ length xs"
proof (induction xs rule: rev_induct)
  case Nil
  then show ?case by (simp add: bin_value_def)
next
  case (snoc c xs)
  then show ?case by (simp add: bin_value_snoc)
qed

lemma bin_double: "0 < v \<Longrightarrow> d < 2 \<Longrightarrow> bin (2 * v + d) = bin v @ [bit_char d]"
  by (subst bin.simps) simp

lemma bin_bin_value:
  "bits xs \<Longrightarrow> xs \<noteq> [] \<Longrightarrow>
   replicate (length xs - length (bin (bin_value xs))) CHR ''0'' @ bin (bin_value xs) = xs"
proof (induction xs rule: rev_induct)
  case Nil
  then show ?case by simp
next
  case (snoc c xs)
  define d :: nat where "d = (if c = CHR ''1'' then 1 else 0)"
  from snoc.prems have c: "c = bit_char d" and bxs: "bits xs" and d2: "d < 2"
    by (auto simp: bits_append bits_Cons d_def bit_char_def)
  have val: "bin_value (xs @ [c]) = 2 * bin_value xs + d"
    by (simp add: bin_value_snoc d_def)
  show ?case
  proof (cases "xs = []")
    case True
    then show ?thesis
      unfolding val using d2 by (auto simp: bin_value_def bin_small c bit_char_def)
  next
    case False
    note IH = snoc.IH [OF bxs False]
    show ?thesis
    proof (cases "bin_value xs = 0")
      case True
      with IH have eq: "replicate (length xs - 1) CHR ''0'' @ ''0'' = xs"
        by (simp add: bin_small bit_char_def)
      have "0 < length xs"
        using False by simp
      then have "replicate (length xs) CHR ''0'' = replicate (Suc (length xs - 1)) CHR ''0''"
        by simp
      also have "\<dots> = replicate (length xs - 1) CHR ''0'' @ ''0''"
        by (simp only: replicate_Suc replicate_append_same)
      finally have "xs = replicate (length xs) CHR ''0''"
        using eq by simp
      then obtain k where xs: "xs = replicate k CHR ''0''" ..
      have "bin (bin_value (xs @ [c])) = [c]"
        unfolding val True using d2 by (simp add: bin_small c)
      then show ?thesis
        using xs by simp
    next
      case False
      then have "bin (bin_value (xs @ [c])) = bin (bin_value xs) @ [c]"
        unfolding val using d2 by (simp add: bin_double c)
      then show ?thesis
        using IH by simp
    qed
  qed
qed

lemma format_08b_to_byte:
  assumes "bits c" and "length c = 8"
  shows "to_byte c = Inr (word_of_nat (bin_value c)) \<and> format_08b (word_of_nat (bin_value c)) = c"
proof -
  have lt: "bin_value c < 256"
    using bin_value_bound [of c] assms(2) by simp
  have ne: "c \<noteq> []" using assms(2) by auto
  have "unat (word_of_nat (bin_value c) :: 8 word) = bin_value c"
    using lt by (simp add: unat_of_nat)
  then have "format_08b (word_of_nat (bin_value c)) = c"
    using bin_bin_value [OF assms(1) ne] assms(2) by (simp add: format_08b_def)
  moreover have "to_byte c = Inr (word_of_nat (bin_value c))"
    using lt ne assms(1) by (simp add: to_byte_def int_base2_def)
  ultimately show ?thesis by simp
qed

lemma to_bytes_read:
  "\<forall>c \<in> set cs. bits c \<and> length c = 8 \<Longrightarrow>
   \<exists>data. to_bytes cs = Inr data \<and> read_file_binary data = concat cs"
proof (induction cs)
  case Nil
  then show ?case by (simp add: read_file_binary_def)
next
  case (Cons c cs)
  then obtain data where data: "to_bytes cs = Inr data" "read_file_binary data = concat cs"
    by auto
  from Cons.prems have "bits c" "length c = 8" by simp_all
  from format_08b_to_byte [OF this] data show ?case
    by (simp add: read_file_binary_def)
qed

section \<open>Framing: writing, reading and the length prefix\<close>

lemma byte_chunks_Nil: "byte_chunks [] = []"
  by (simp add: byte_chunks_def)

lemma byte_chunks_rec:
  assumes "X \<noteq> []"
  shows "byte_chunks X = take 8 X # byte_chunks (drop 8 X)"
proof -
  have m: "(length X + 7) div 8 = Suc ((length X - 8 + 7) div 8)"
    using assms by (cases X) (simp_all, arith)
  have "[0..<Suc ((length X - 8 + 7) div 8)] = 0 # map Suc [0..<(length X - 8 + 7) div 8]"
    by (simp only: upt_conv_Cons [OF zero_less_Suc] map_Suc_upt)
  then show ?thesis
    unfolding byte_chunks_def m by (simp add: comp_def add.commute)
qed

lemma pad_last_short:
  assumes "X \<noteq> []" and "length X \<le> 8"
  shows "pad_last (byte_chunks X)
     = (if length X = 8 then [X, ''10000000'']
        else [X @ ''1'' @ replicate (7 - length X) CHR ''0''])"
proof -
  have "byte_chunks X = [X]"
    using assms by (simp add: byte_chunks_rec byte_chunks_Nil)
  then show ?thesis
    using assms by (auto simp: pad_last_def Let_def)
qed

lemma pad_last_long:
  assumes "8 < length X"
  shows "pad_last (byte_chunks X) = take 8 X # pad_last (byte_chunks (drop 8 X))"
proof -
  from assms have ne: "X \<noteq> []" and ne': "drop 8 X \<noteq> []" by auto
  have rest: "byte_chunks (drop 8 X) \<noteq> []"
    using byte_chunks_rec [OF ne'] by simp
  have "byte_chunks X = take 8 X # byte_chunks (drop 8 X)"
    by (rule byte_chunks_rec [OF ne])
  then show ?thesis
    using rest by (simp add: pad_last_def Let_def)
qed

lemma replicate_7_zero: "replicate 7 CHR ''0'' = ''0000000''"
  by (simp add: eval_nat_numeral)

lemma pad_last_chunks:
  "X \<noteq> [] \<Longrightarrow> bits X \<Longrightarrow>
   concat (pad_last (byte_chunks X)) = X @ ''1'' @ replicate (7 - length X mod 8) CHR ''0''
   \<and> (\<forall>c \<in> set (pad_last (byte_chunks X)). bits c \<and> length c = 8)"
proof (induction "length X" arbitrary: X rule: less_induct)
  case less
  show ?case
  proof (cases "length X \<le> 8")
    case True
    show ?thesis
    proof (cases "length X = 8")
      case True
      with less.prems show ?thesis
        by (simp add: pad_last_short bits_Cons bits_Nil replicate_7_zero)
    next
      case False
      with True have "length X < 8" by simp
      with less.prems show ?thesis
        by (simp add: pad_last_short bits_Cons bits_Nil bits_append bits_replicate_zero)
    qed
  next
    case False
    then have long: "8 < length X" by simp
    then have "length (drop 8 X) < length X" and "drop 8 X \<noteq> []" by simp_all
    moreover have "bits (drop 8 X)" by (rule bits_drop) (rule less.prems)
    ultimately have IH:
      "concat (pad_last (byte_chunks (drop 8 X)))
         = drop 8 X @ ''1'' @ replicate (7 - length (drop 8 X) mod 8) CHR ''0''
       \<and> (\<forall>c \<in> set (pad_last (byte_chunks (drop 8 X))). bits c \<and> length c = 8)"
      by (rule less.hyps)
    have md: "(length X - 8) mod 8 = length X mod 8"
      using long by (simp add: le_mod_geq)
    have "take 8 X @ drop 8 X = X" by simp
    then have cat: "take 8 X @ drop 8 X @ ys = X @ ys" for ys
      by (metis append.assoc)
    have "bits (take 8 X)" by (rule bits_take) (rule less.prems)
    moreover have "length (take 8 X) = 8" using long by simp
    ultimately show ?thesis
      using IH by (simp add: pad_last_long [OF long] md cat)
  qed
qed


lemma write_read:
  assumes "X \<noteq> []" and "bits X"
  shows "\<exists>data. write_file_binary X = Inr data
           \<and> read_file_binary data = X @ ''1'' @ replicate (7 - length X mod 8) CHR ''0''"
proof -
  have ne: "byte_chunks X \<noteq> []"
    using byte_chunks_rec [OF assms(1)] by simp
  from pad_last_chunks [OF assms]
  have cat: "concat (pad_last (byte_chunks X)) = X @ ''1'' @ replicate (7 - length X mod 8) CHR ''0''"
    and all: "\<forall>c \<in> set (pad_last (byte_chunks X)). bits c \<and> length c = 8"
    by simp_all
  from to_bytes_read [OF all] obtain data where
    "to_bytes (pad_last (byte_chunks X)) = Inr data"
    "read_file_binary data = concat (pad_last (byte_chunks X))"
    by blast
  then show ?thesis
    using ne cat by (simp add: write_file_binary_def)
qed

lemma frame_unframe:
  assumes "0 < n" and "bits p"
  shows "\<exists>data. frame p n = Inr data
           \<and> unframe data
               = p @ ''1'' @ replicate (7 - length (add_file_length n p) mod 8) CHR ''0''"
proof -
  from bin_starts_with_one [OF assms(1)] obtain rest where rest: "bin n = CHR ''1'' # rest"
    by blast
  let ?X = "add_file_length n p"
  let ?pad = "''1'' @ replicate (7 - length ?X mod 8) CHR ''0''"
  have X: "?X = replicate (length rest) CHR ''0'' @ CHR ''1'' # (rest @ p)"
    by (simp add: add_file_length_def rest)
  have "bits (bin n)" by (rule bits_bin)
  then have "bits ?X"
    using assms(2) by (simp add: X rest bits_append bits_Cons bits_replicate_zero)
  moreover have "?X \<noteq> []" by (simp add: X)
  ultimately obtain data where data: "write_file_binary ?X = Inr data"
      "read_file_binary data = ?X @ ?pad"
    using write_read by blast
  have "remove_prefix (replicate (length rest) CHR ''0'' @ CHR ''1'' # (rest @ p @ ?pad))
      = drop (length (replicate (length rest) CHR ''0'')) (rest @ p @ ?pad)"
    by (rule remove_prefix_after_one) simp
  then have "remove_prefix (?X @ ?pad) = p @ ?pad"
    by (simp add: X)
  with data show ?thesis
    by (simp add: frame_def unframe_def)
qed

text \<open>
  Claim C8, as the code has it. For every non-empty bit string \<open>p\<close>, framing \<open>p\<close> with
  its length gives a file, and unframing that file gives \<open>p\<close> followed by the padding of
  \<open>write_file_binary\<close>: a \<open>1\<close> and then the zeros that fill the last byte (seven zeros
  when the framed bits already end on a byte boundary). The prefix is removed exactly;
  the padding is not removed.
\<close>

theorem frame_unframe_payload:
  assumes "bits p" and "p \<noteq> []"
  shows "\<exists>data. frame p (length p) = Inr data
           \<and> unframe data
               = p @ ''1'' @ replicate (7 - length (add_file_length (length p) p) mod 8) CHR ''0''"
  using assms by (intro frame_unframe) simp_all

text \<open>The theorem at a payload of nine bits, framed into three bytes.\<close>

theorem frame_unframe_payload_witness:
  "bits ''101100111'' \<and> ''101100111'' \<noteq> []
   \<and> frame ''101100111'' 9 = Inr [19, 103, 128]
   \<and> unframe [19, 103, 128] = ''101100111'' @ ''1'' @ ''0000000''"
proof -
  have b: "bits ''101100111''"
    by (simp add: bits_def)
  have ne: "''101100111'' \<noteq> []"
    by simp
  have l: "length ''101100111'' = 9"
    by simp
  have fwd: "frame ''101100111'' 9 = Inr [19, 103, 128]"
    by code_simp
  have len: "7 - length (add_file_length 9 ''101100111'') mod 8 = 7"
    by code_simp
  from frame_unframe_payload [OF b ne, unfolded l len] obtain data where
    "frame ''101100111'' 9 = Inr data"
    "unframe data = ''101100111'' @ ''1'' @ replicate 7 CHR ''0''"
    by blast
  with fwd have "unframe [19, 103, 128] = ''101100111'' @ ''1'' @ replicate 7 CHR ''0''"
    by simp
  with b fwd show ?thesis
    by (simp add: replicate_7_zero)
qed

text \<open>
  Claim C8 as stated fails: the payload \<open>1\<close> is framed into the byte \<open>11100000\<close>, and
  unframing this byte gives \<open>1100000\<close>, not \<open>1\<close>.
\<close>

theorem frame_unframe_payload_counterexample:
  "frame ''1'' (length ''1'') = Inr [224] \<and> unframe [224] = ''1100000''
   \<and> unframe [224] \<noteq> ''1''"
  by code_simp

text \<open>
  The empty payload with length 0 is outside the theorem: its prefix is the single bit
  \<open>0\<close>, which holds no \<open>1\<close>, and \<open>remove_prefix\<close> takes the padding for the length.
\<close>

lemma frame_unframe_empty:
  "frame [] (length ([] :: string)) = Inr [64] \<and> unframe [64] = ''00000''"
  by code_simp

section \<open>Huffman: the code table, prefix freedom and the round trip\<close>

text \<open>
  \<open>build_tree\<close> keeps the letters of its list, and \<open>parse_file\<close> makes one letter for
  every distinct symbol, so the table of \<open>huffman_encode\<close> is \<open>codes root []\<close>: one
  entry for every symbol of the input, with the path to its leaf.
\<close>

lemma traverse_tree_codes:
  "(\<forall>l \<in> set (leaves t). bitstring l = []) \<Longrightarrow>
   concat (map bitstring (traverse_tree t bs)) = codes t bs"
  by (induction t arbitrary: bs) simp_all

lemma keys_codes: "map fst (codes t bs) = map letter (leaves t)"
  by (induction t arbitrary: bs) simp_all

lemma codes_extend: "x \<in> set (codes t bs) \<Longrightarrow> prefix bs (snd x)"
proof (induction t arbitrary: bs)
  case (Leaf l)
  then show ?case by simp
next
  case (TreeNode f left right)
  then have "prefix (bs @ ''0'') (snd x) \<or> prefix (bs @ ''1'') (snd x)"
    by auto
  then show ?case
    by (auto dest: append_prefixD)
qed

lemma branches_unrelated:
  assumes "prefix (bs @ ''0'') (snd x)" and "prefix (bs @ ''1'') (snd y)"
  shows "unrelated x y"
proof -
  from assms obtain u v where u: "snd x = bs @ ''0'' @ u" and v: "snd y = bs @ ''1'' @ v"
    by (auto simp: prefix_def)
  show ?thesis
    unfolding unrelated_def u v by (auto simp: prefix_def)
qed

lemma codes_unrelated: "sorted_wrt unrelated (codes t bs)"
proof (induction t arbitrary: bs)
  case (Leaf l)
  then show ?case by simp
next
  case (TreeNode f left right)
  have "unrelated x y"
    if "x \<in> set (codes left (bs @ ''0''))" and "y \<in> set (codes right (bs @ ''1''))" for x y
    using that by (intro branches_unrelated codes_extend)
  with TreeNode show ?case
    by (simp add: sorted_wrt_append)
qed

lemma unrelated_distinct_keys:
  assumes "sorted_wrt unrelated xs" and "a \<in> set xs" and "b \<in> set xs" and "fst a \<noteq> fst b"
  shows "unrelated a b"
  using assms
proof (induction xs)
  case Nil
  then show ?case by simp
next
  case (Cons x xs)
  have sym: "unrelated u v \<Longrightarrow> unrelated v u" for u v
    by (simp add: unrelated_def)
  from Cons show ?case
    by (auto intro: sym)
qed

lemma update_new_key:
  "k \<notin> fst ` set al \<Longrightarrow> AList.update k v al = al @ [(k, v)]"
  by (induction al) auto

lemma fold_update_distinct:
  "distinct (map fst (acc @ xs)) \<Longrightarrow>
   fold (\<lambda>(k, v). AList.update k v) xs acc = acc @ xs"
proof (induction xs arbitrary: acc)
  case Nil
  then show ?case by simp
next
  case (Cons x xs)
  obtain k v where x: "x = (k, v)" by (cases x)
  from Cons.prems have "k \<notin> fst ` set acc"
    by (auto simp: x)
  then have "AList.update k v acc = acc @ [(k, v)]"
    by (rule update_new_key)
  moreover from Cons.prems have "distinct (map fst ((acc @ [(k, v)]) @ xs))"
    by (simp add: x)
  ultimately show ?case
    using Cons.IH [of "acc @ [(k, v)]"] by (simp add: x)
qed

lemma letters_dict_codes:
  assumes "\<forall>l \<in> set (leaves t). bitstring l = []" and "distinct (map letter (leaves t))"
  shows "letters_dict (traverse_tree t bs) = codes t bs"
proof -
  have "distinct (map fst ([] @ codes t bs))"
    using assms(2) by (simp add: keys_codes)
  then show ?thesis
    unfolding letters_dict_def traverse_tree_codes [OF assms(1)]
    using fold_update_distinct [of "[]" "codes t bs"] by simp
qed


lemma count_fold_keys:
  "distinct (map fst acc) \<Longrightarrow>
   distinct (map fst (fold (\<lambda>c chars.
       AList.update c (case map_of chars c of Some n \<Rightarrow> n + 1 | None \<Rightarrow> 1) chars) raw acc))
   \<and> fst ` set (fold (\<lambda>c chars.
       AList.update c (case map_of chars c of Some n \<Rightarrow> n + 1 | None \<Rightarrow> 1) chars) raw acc)
     = fst ` set acc \<union> set raw"
proof (induction raw arbitrary: acc)
  case Nil
  then show ?case by simp
next
  case (Cons c raw)
  let ?acc = "AList.update c (case map_of acc c of Some n \<Rightarrow> n + 1 | None \<Rightarrow> 1) acc"
  have "distinct (map fst ?acc)"
    using Cons.prems by (rule distinct_update)
  from Cons.IH [OF this] show ?case
    by (auto simp: dom_update)
qed

lemma count_chars_keys:
  "distinct (map fst (count_chars raw)) \<and> fst ` set (count_chars raw) = set raw"
  using count_fold_keys [of "[]" raw] by (simp add: count_chars_def)

lemma mset_forest_cong:
  assumes "mset xs = mset ys"
  shows "mset (concat (map leaves xs)) = mset (concat (map leaves ys))"
proof -
  have "mset (concat (map leaves zs)) = sum_mset (image_mset (\<lambda>t. mset (leaves t)) (mset zs))" for zs
    by (induction zs) simp_all
  then show ?thesis
    by (simp add: assms)
qed

lemma build_tree_leaves:
  "ts \<noteq> [] \<Longrightarrow>
   \<exists>root. build_tree ts = Inr root \<and> mset (leaves root) = mset (concat (map leaves ts))"
proof (induction ts rule: build_tree.induct)
  case 1
  then show ?case by simp
next
  case (2 root)
  then show ?case by simp
next
  case (3 left right response)
  let ?node = "TreeNode (node_freq left + node_freq right) left right"
  let ?next = "sort_key node_freq (response @ [?node])"
  have "?next \<noteq> []"
    by (metis length_sort length_0_conv snoc_eq_iff_butlast)
  from "3.IH" [OF this] obtain root where
    root: "build_tree ?next = Inr root" "mset (leaves root) = mset (concat (map leaves ?next))"
    by blast
  have "mset (concat (map leaves ?next)) = mset (concat (map leaves (response @ [?node])))"
    by (rule mset_forest_cong) simp
  with root show ?case
    by simp
qed

lemma leaves_new_letters:
  "concat (map leaves (map (\<lambda>(c, f). Leaf \<lparr>letter = c, freq = f, bitstring = []\<rparr>) xs))
     = map new_letter xs"
  by (induction xs) (auto simp: new_letter_def)

lemma parse_file_leaves:
  "mset (concat (map leaves (parse_file raw))) = mset (map new_letter (count_chars raw))"
proof -
  let ?ls = "map (\<lambda>(c, f). Leaf \<lparr>letter = c, freq = f, bitstring = []\<rparr>) (count_chars raw)"
  have "mset (concat (map leaves (parse_file raw))) = mset (concat (map leaves ?ls))"
    unfolding parse_file_def by (rule mset_forest_cong) simp
  also have "concat (map leaves ?ls) = map new_letter (count_chars raw)"
    by (rule leaves_new_letters)
  finally show ?thesis .
qed


lemma huffman_table:
  assumes "s \<noteq> []"
  shows "\<exists>root. build_tree (parse_file s) = Inr root
           \<and> letters_dict (traverse_tree root []) = codes root []
           \<and> distinct (map fst (codes root []))
           \<and> fst ` set (codes root []) = set s"
proof -
  let ?cc = "count_chars s"
  have keys: "distinct (map fst ?cc)" "fst ` set ?cc = set s"
    using count_chars_keys [of s] by simp_all
  have "set (parse_file s) \<noteq> {}"
    using keys(2) assms by (auto simp: parse_file_def)
  then have "parse_file s \<noteq> []"
    by auto
  from build_tree_leaves [OF this] obtain root where
    root: "build_tree (parse_file s) = Inr root"
    and "mset (leaves root) = mset (concat (map leaves (parse_file s)))"
    by blast
  then have ms: "mset (leaves root) = mset (map new_letter ?cc)"
    by (simp add: parse_file_leaves)
  then have "set (leaves root) = set (map new_letter ?cc)"
    by (rule mset_eq_setD)
  then have empty: "\<forall>l \<in> set (leaves root). bitstring l = []"
    by (auto simp: new_letter_def)
  have "image_mset letter (mset (leaves root)) = image_mset letter (mset (map new_letter ?cc))"
    using ms by (rule arg_cong)
  moreover have "map letter (map new_letter ?cc) = map fst ?cc"
    by (auto simp: new_letter_def)
  ultimately have ml: "mset (map letter (leaves root)) = mset (map fst ?cc)"
    by (metis mset_map)
  then have dist: "distinct (map letter (leaves root))"
    using keys(1) by (metis mset_eq_imp_distinct_iff)
  from ml have "set (map letter (leaves root)) = set (map fst ?cc)"
    by (rule mset_eq_setD)
  then have dom: "fst ` set (codes root []) = set s"
    using keys(2) keys_codes [of root "[]"] by (metis set_map)
  from root letters_dict_codes [OF empty dist] dist dom show ?thesis
    by (simp add: keys_codes)
qed

lemma return_key_unique:
  assumes "sorted_wrt unrelated t" and "map_of t c = Some v"
  shows "return_key t v = c"
proof (rule ccontr)
  assume neq: "return_key t v \<noteq> c"
  from assms(2) have in_t: "(c, v) \<in> set t"
    by (rule map_of_SomeD)
  then have "v \<in> snd ` set t"
    by force
  then have "(return_key t v, v) \<in> set t"
    by (rule return_key_found)
  from unrelated_distinct_keys [OF assms(1) this in_t] neq show False
    by (simp add: unrelated_def)
qed

lemma encode_list_decode:
  assumes "sorted_wrt unrelated t"
  shows "set s \<subseteq> fst ` set t \<Longrightarrow>
         \<exists>cs. encode_list t s = Inr cs \<and> map (return_key t) cs = s"
proof (induction s)
  case Nil
  then show ?case by simp
next
  case (Cons c s)
  then obtain cs where cs: "encode_list t s = Inr cs" "map (return_key t) cs = s"
    by auto
  from Cons.prems have "c \<in> fst ` set t"
    by simp
  then obtain v where v: "map_of t c = Some v"
    by (metis map_of_eq_None_iff not_Some_eq)
  from return_key_unique [OF assms v] cs v show ?case
    by simp
qed

text \<open>
  Claim C3. For every non-empty list of symbols \<open>s\<close>, \<open>huffman_encode\<close> returns a
  result (the code list with the table built from the frequencies of \<open>s\<close>), and
  \<open>huffman_decode\<close> of that result is \<open>s\<close>.
\<close>

theorem huffman_round_trip:
  assumes "s \<noteq> []"
  shows "\<exists>h. huffman_encode s = Inr h \<and> huffman_decode h = s"
proof -
  from huffman_table [OF assms] obtain root where
    root: "build_tree (parse_file s) = Inr root"
    and table: "letters_dict (traverse_tree root []) = codes root []"
    and dom: "fst ` set (codes root []) = set s"
    by blast
  have "sorted_wrt unrelated (codes root [])"
    by (rule codes_unrelated)
  from encode_list_decode [OF this, of s] dom obtain cs where
    "encode_list (codes root []) s = Inr cs" "map (return_key (codes root [])) cs = s"
    by auto
  with root table show ?thesis
    by (simp add: huffman_encode_def huffman_decode_def)
qed

text \<open>The theorem at the list of the docstring, with the table and codes given there.\<close>

theorem huffman_round_trip_witness:
  "[''a'', ''a'', ''a'', ''a'', ''d'', ''s'', ''s'', ''_'', ''c'', ''_'', ''_'', ''a'', ''a''] \<noteq> []
   \<and> huffman_encode
         [''a'', ''a'', ''a'', ''a'', ''d'', ''s'', ''s'', ''_'', ''c'', ''_'', ''_'', ''a'', ''a'']
       = Inr \<lparr>Huf_encode = [''0'', ''0'', ''0'', ''0'', ''1110'', ''110'', ''110'', ''10'',
                              ''1111'', ''10'', ''10'', ''0'', ''0''],
               Huf_letters = [(''a'', ''0''), (''_'', ''10''), (''s'', ''110''),
                              (''d'', ''1110''), (''c'', ''1111'')]\<rparr>
   \<and> huffman_decode
         \<lparr>Huf_encode = [''0'', ''0'', ''0'', ''0'', ''1110'', ''110'', ''110'', ''10'',
                         ''1111'', ''10'', ''10'', ''0'', ''0''],
          Huf_letters = [(''a'', ''0''), (''_'', ''10''), (''s'', ''110''),
                         (''d'', ''1110''), (''c'', ''1111'')]\<rparr>
       = [''a'', ''a'', ''a'', ''a'', ''d'', ''s'', ''s'', ''_'', ''c'', ''_'', ''_'', ''a'', ''a'']"
proof -
  let ?s = "[''a'', ''a'', ''a'', ''a'', ''d'', ''s'', ''s'', ''_'', ''c'', ''_'', ''_'', ''a'', ''a'']"
  let ?h = "\<lparr>Huf_encode = [''0'', ''0'', ''0'', ''0'', ''1110'', ''110'', ''110'', ''10'',
                              ''1111'', ''10'', ''10'', ''0'', ''0''],
               Huf_letters = [(''a'', ''0''), (''_'', ''10''), (''s'', ''110''),
                              (''d'', ''1110''), (''c'', ''1111'')]\<rparr>"
  have fwd: "huffman_encode ?s = Inr ?h"
    by code_simp
  have "?s \<noteq> []"
    by simp
  from huffman_round_trip [OF this] obtain h where "huffman_encode ?s = Inr h" "huffman_decode h = ?s"
    by blast
  with fwd have "huffman_decode ?h = ?s"
    by simp
  with fwd show ?thesis
    by simp
qed

text \<open>
  Claim C4. For every non-empty list of symbols, \<open>huffman_encode\<close> returns a result,
  and for every two entries of its table \<open>Huf_letters\<close> with distinct symbols neither
  code is a prefix of the other.
\<close>

theorem huffman_prefix_free:
  assumes "s \<noteq> []"
  shows "\<exists>h. huffman_encode s = Inr h
           \<and> (\<forall>k1 v1 k2 v2.
                 (k1, v1) \<in> set (Huf_letters h) \<and> (k2, v2) \<in> set (Huf_letters h) \<and> k1 \<noteq> k2
                 \<longrightarrow> \<not> prefix v1 v2 \<and> \<not> prefix v2 v1)"
proof -
  from huffman_table [OF assms] obtain root where
    root: "build_tree (parse_file s) = Inr root"
    and table: "letters_dict (traverse_tree root []) = codes root []"
    and dom: "fst ` set (codes root []) = set s"
    by blast
  have free: "sorted_wrt unrelated (codes root [])"
    by (rule codes_unrelated)
  from encode_list_decode [OF this, of s] dom obtain cs where
    cs: "encode_list (codes root []) s = Inr cs"
    by auto
  have "\<not> prefix v1 v2 \<and> \<not> prefix v2 v1"
    if "(k1, v1) \<in> set (codes root [])" and "(k2, v2) \<in> set (codes root [])" and "k1 \<noteq> k2"
    for k1 v1 k2 v2
    using unrelated_distinct_keys [OF free that(1) that(2)] that(3) by (simp add: unrelated_def)
  with root table cs show ?thesis
    by (simp add: huffman_encode_def) blast
qed

text \<open>The theorem at the list \<open>[a, b, b]\<close>, whose table gives \<open>a\<close> the code 0 and \<open>b\<close> the code 1.\<close>

theorem huffman_prefix_free_witness:
  "[''a'', ''b'', ''b''] \<noteq> []
   \<and> huffman_encode [''a'', ''b'', ''b'']
       = Inr \<lparr>Huf_encode = [''0'', ''1'', ''1''], Huf_letters = [(''a'', ''0''), (''b'', ''1'')]\<rparr>
   \<and> ''a'' \<noteq> ''b'' \<and> \<not> prefix ''0'' ''1'' \<and> \<not> prefix ''1'' ''0''"
proof -
  let ?s = "[''a'', ''b'', ''b'']"
  let ?h = "\<lparr>Huf_encode = [''0'', ''1'', ''1''], Huf_letters = [(''a'', ''0''), (''b'', ''1'')]\<rparr>"
  have fwd: "huffman_encode ?s = Inr ?h"
    by code_simp
  have "?s \<noteq> []"
    by simp
  from huffman_prefix_free [OF this] obtain h where h: "huffman_encode ?s = Inr h"
    and free: "\<forall>k1 v1 k2 v2.
        (k1, v1) \<in> set (Huf_letters h) \<and> (k2, v2) \<in> set (Huf_letters h) \<and> k1 \<noteq> k2
        \<longrightarrow> \<not> prefix v1 v2 \<and> \<not> prefix v2 v1"
    by blast
  from h fwd have "h = ?h"
    by simp
  with free have "(''a'', ''0'') \<in> set (Huf_letters ?h) \<and> (''b'', ''1'') \<in> set (Huf_letters ?h)
      \<and> ''a'' \<noteq> ''b'' \<longrightarrow> \<not> prefix ''0'' ''1'' \<and> \<not> prefix ''1'' ''0''"
    by blast
  then have "\<not> prefix ''0'' ''1'' \<and> \<not> prefix ''1'' ''0''"
    by simp
  with fwd show ?thesis
    by simp
qed

section \<open>Lempel-Ziv: binary numerals and the width of the codes\<close>

lemma bin_value_bin: "bin_value (bin n) = n"
proof (induction n rule: bin.induct)
  case (1 n)
  show ?case
  proof (cases "n < 2")
    case True
    then have "n = 0 \<or> n = 1" by auto
    then show ?thesis
      by (auto simp: bin_small bin_value_def bit_char_def)
  next
    case False
    then have "bin n = bin (n div 2) @ [bit_char (n mod 2)]"
      by (subst bin.simps) simp
    moreover have "(if bit_char (n mod 2) = CHR ''1'' then 1 else 0) = n mod 2"
      by (auto simp: bit_char_def)
    ultimately show ?thesis
      using "1.IH" False by (simp add: bin_value_snoc)
  qed
qed

lemma bin_value_zero_Cons: "bin_value (CHR ''0'' # k) = bin_value k"
  by (simp add: bin_value_def)

lemma bin_not_Nil: "bin n \<noteq> []"
  by (subst bin.simps) simp

lemma length_bin_step: "2 \<le> n \<Longrightarrow> length (bin n) = Suc (length (bin (n div 2)))"
  by (subst bin.simps) simp

lemma is_pow2_step: "2 \<le> n \<Longrightarrow> is_pow2 n = (even n \<and> is_pow2 (n div 2))"
  by (subst is_pow2.simps) simp

lemma length_bin_pow2:
  "2 \<le> i \<Longrightarrow>
   length (bin i) = (if is_pow2 i then Suc (length (bin (i - 1))) else length (bin (i - 1)))"
proof (induction i rule: less_induct)
  case (less i)
  show ?case
  proof (cases "i = 2")
    case True
    have "bin 2 = ''10''" "bin 1 = ''1''" "is_pow2 2" by code_simp+
    then show ?thesis by (simp add: True)
  next
    case False
    with less.prems have i3: "3 \<le> i" by simp
    then have l1: "length (bin (i - 1)) = Suc (length (bin ((i - 1) div 2)))"
      by (intro length_bin_step) simp
    have l0: "length (bin i) = Suc (length (bin (i div 2)))"
      using less.prems by (rule length_bin_step)
    show ?thesis
    proof (cases "even i")
      case True
      then obtain m where m: "i = 2 * m" by (auto elim: evenE)
      with i3 have m2: "2 \<le> m" "m < i" by simp_all
      have d: "i div 2 = m" "(i - 1) div 2 = m - 1"
        using m m2 by simp_all
      have p: "is_pow2 i = is_pow2 m"
        using is_pow2_step [OF less.prems] True d(1) by simp
      show ?thesis
        unfolding l0 l1 d p using less.IH [OF m2(2) m2(1)] by simp
    next
      case False
      then obtain m where m: "i = 2 * m + 1" by (auto elim: oddE)
      have d: "i div 2 = m" "(i - 1) div 2 = m"
        using m by simp_all
      have p: "is_pow2 i = False"
        using is_pow2_step [OF less.prems] False by simp
      show ?thesis
        unfolding l0 l1 d p by simp
    qed
  qed
qed

section \<open>Lempel-Ziv: the keys of the lexicon\<close>

lemma prefix_free_split:
  assumes "prefix_free K" and "c \<in> K"
  shows "prefix_free (split_key K c)"
  unfolding prefix_free_def split_key_def
proof (intro ballI impI)
  fix a b
  assume a: "a \<in> K - {c} \<union> {c @ ''0'', c @ ''1''}"
    and b: "b \<in> K - {c} \<union> {c @ ''0'', c @ ''1''}" and p: "prefix a b"
  have old: "\<And>u v. u \<in> K \<Longrightarrow> v \<in> K \<Longrightarrow> prefix u v \<Longrightarrow> u = v"
    using assms(1) by (auto simp: prefix_free_def)
  have below: "u = c" if "u \<in> K" and "prefix u (c @ [d])" and "u \<noteq> c @ [d]" for u d
  proof -
    from that(2,3) have "prefix u c"
      by (auto simp: prefix_snoc)
    with old that(1) assms(2) show ?thesis by blast
  qed
  have above: "u = c" if "u \<in> K" and "prefix (c @ [d]) u" for u d
  proof -
    from that(2) have "prefix c u"
      by (rule append_prefixD)
    with old that(1) assms(2) show ?thesis by blast
  qed
  consider "a \<in> K - {c}" "b \<in> K - {c}"
    | d where "a \<in> K - {c}" "b = c @ [d]"
    | d where "a = c @ [d]" "b \<in> K - {c}"
    | "a \<in> {c @ ''0'', c @ ''1''}" "b \<in> {c @ ''0'', c @ ''1''}"
    using a b by auto
  then show "a = b"
  proof cases
    case 1
    with p old show ?thesis by blast
  next
    case 2
    show ?thesis
    proof (rule ccontr)
      assume "a \<noteq> b"
      with below [of a d] 2 p show False by auto
    qed
  next
    case 3
    with above [of b d] p show ?thesis by auto
  next
    case 4
    with p show ?thesis by auto
  qed
qed

lemma strict_prefix_snoc: "strict_prefix c (c @ [d])"
  by (simp add: strict_prefix_def)

lemma complete_split:
  assumes "complete K" and "c \<in> K"
  shows "complete (split_key K c)"
  unfolding complete_def
proof (intro allI impI)
  fix x
  assume x: "bits x"
  with assms(1) consider k where "k \<in> K" "prefix k x" | k where "k \<in> K" "strict_prefix x k"
    by (auto simp: complete_def)
  then show "(\<exists>k \<in> split_key K c. prefix k x) \<or> (\<exists>k \<in> split_key K c. strict_prefix x k)"
  proof cases
    case 1
    show ?thesis
    proof (cases "k = c")
      case False
      with 1 show ?thesis by (auto simp: split_key_def)
    next
      case True
      with 1 obtain r where r: "x = c @ r" by (auto simp: prefix_def)
      show ?thesis
      proof (cases r)
        case Nil
        then have "strict_prefix x (c @ ''0'')" by (simp add: r strict_prefix_snoc)
        then show ?thesis by (auto simp: split_key_def)
      next
        case (Cons d r')
        with x r have "d = CHR ''0'' \<or> d = CHR ''1''"
          by (simp add: bits_append bits_Cons)
        then have "prefix (c @ ''0'') x \<or> prefix (c @ ''1'') x"
          by (auto simp: r Cons)
        then show ?thesis by (auto simp: split_key_def)
      qed
    qed
  next
    case 2
    show ?thesis
    proof (cases "k = c")
      case False
      with 2 show ?thesis by (auto simp: split_key_def)
    next
      case True
      with 2 have "strict_prefix x c"
        by simp
      then have "strict_prefix x (c @ ''0'')"
        using strict_prefix_snoc [of c "CHR ''0''"] by (metis strict_prefix_simps(1) prefix_order.less_trans)
      then show ?thesis by (auto simp: split_key_def)
    qed
  qed
qed

lemma snoc_not_in_prefix_free:
  assumes "prefix_free K" and "c \<in> K"
  shows "c @ [d] \<notin> K"
proof
  assume "c @ [d] \<in> K"
  moreover have "prefix c (c @ [d])" by simp
  ultimately have "c = c @ [d]"
    using assms unfolding prefix_free_def by blast
  then show False by simp
qed

section \<open>Lempel-Ziv: one step keeps the two lexicons in step\<close>

lemma append_zero_fun: "(@) ''0'' = (#) CHR ''0''"
  by (rule ext) simp

lemma add_key_step:
  "L c \<noteq> None \<Longrightarrow> i \<noteq> 0 \<Longrightarrow> add_key_to_lexicon L c i k = Inr (compress_step L c i k)"
  by (simp add: add_key_to_lexicon_def compress_step_def widen_values_def Let_def append_zero_fun)

lemma dom_widen_values: "dom (widen_values L) = dom L"
  by (auto simp: widen_values_def dom_def)

lemma dom_compress_step:
  "L c = Some k \<Longrightarrow> dom (compress_step L c i k) = split_key (dom L) c"
  by (auto simp: compress_step_def Let_def dom_widen_values split_key_def)

lemma widen_keys_Some: "(widen_keys D k' = Some c) = (\<exists>k. k' = CHR ''0'' # k \<and> D k = Some c)"
  by (cases k') (auto simp: widen_keys_def)

lemma widen_values_Some: "(widen_values L c = Some k') = (\<exists>k. k' = CHR ''0'' # k \<and> L c = Some k)"
  by (cases "L c") (auto simp: widen_values_def)

lemma inverseD: "inverse_lex L D \<Longrightarrow> (L c = Some k) = (D k = Some c)"
  by (simp add: inverse_lex_def)

lemma inverse_widen:
  assumes "inverse_lex L D"
  shows "inverse_lex (widen_values L) (widen_keys D)"
  unfolding inverse_lex_def widen_keys_Some widen_values_Some
proof (intro allI)
  fix c k'
  show "(\<exists>k. k' = CHR ''0'' # k \<and> L c = Some k) = (\<exists>k. k' = CHR ''0'' # k \<and> D k = Some c)"
    by (simp only: inverseD [OF assms])
qed

lemma inverse_add:
  assumes inv: "inverse_lex L D" and cn: "L cn = None" and kn: "D kn = None"
  shows "inverse_lex (L(cn \<mapsto> kn)) (D(kn \<mapsto> cn))"
  unfolding inverse_lex_def
proof (intro allI)
  fix c k
  have 1: "D k \<noteq> Some cn"
    using inverseD [OF inv, of cn k] cn by simp
  have 2: "L c \<noteq> Some kn"
    using inverseD [OF inv, of c kn] kn by simp
  show "((L(cn \<mapsto> kn)) c = Some k) = ((D(kn \<mapsto> cn)) k = Some c)"
    using 1 2 inverseD [OF inv, of c k] by (cases "c = cn"; cases "k = kn") simp_all
qed

lemma inverse_replace:
  assumes inv: "inverse_lex L D" and pf: "prefix_free (dom L)" and c: "L c = Some k"
  shows "inverse_lex ((L(c := None))(c @ ''0'' \<mapsto> k)) (D(k \<mapsto> c @ ''0''))"
proof -
  have Dk: "D k = Some c"
    using inverseD [OF inv, of c k] c by simp
  have "c @ ''0'' \<notin> dom L"
    using pf c by (intro snoc_not_in_prefix_free) auto
  then have fresh: "L (c @ ''0'') = None"
    by auto
  have uniq: "c' = c" if "L c' = Some k" for c'
    using inverseD [OF inv, of c' k] that Dk by simp
  have uniq': "k' = k" if "D k' = Some c" for k'
    using inverseD [OF inv, of c k'] that c by simp
  have nofresh: "D k' \<noteq> Some (c @ ''0'')" for k'
    using inverseD [OF inv, of "c @ ''0''" k'] fresh by simp
  show ?thesis
    unfolding inverse_lex_def
  proof (intro allI)
    fix a b
    show "(((L(c := None))(c @ ''0'' \<mapsto> k)) a = Some b) = ((D(k \<mapsto> c @ ''0'')) b = Some a)"
    proof (cases "a = c @ ''0''")
      case True
      then show ?thesis using nofresh by auto
    next
      case False
      note a0 = this
      show ?thesis
      proof (cases "a = c")
        case True
        then show ?thesis using uniq' by auto
      next
        case False
        with a0 uniq [of a] inverseD [OF inv, of a b] show ?thesis
          by (cases "b = k") auto
      qed
    qed
  qed
qed

lemma codes_ok_fresh:
  assumes "codes_ok D w i"
  shows "D (bin i) = None"
proof (rule ccontr)
  assume "D (bin i) \<noteq> None"
  then have "bin i \<in> dom D" by auto
  with assms have "bin_value (bin i) < i" by (simp add: codes_ok_def)
  then show False by (simp add: bin_value_bin)
qed

lemma codes_ok_replace: "codes_ok D w i \<Longrightarrow> D k = Some c \<Longrightarrow> codes_ok (D(k \<mapsto> v)) w i"
  by (auto simp: codes_ok_def)

lemma codes_ok_widen: "codes_ok D w i \<Longrightarrow> codes_ok (widen_keys D) (Suc w) i"
  by (auto simp: codes_ok_def dom_def widen_keys_Some bin_value_zero_Cons)

lemma codes_ok_add:
  "codes_ok D (length (bin i)) i \<Longrightarrow> codes_ok (D(bin i \<mapsto> v)) (length (bin i)) (Suc i)"
  by (auto simp: codes_ok_def bin_value_bin less_Suc_eq)

lemma lz_inv_step:
  assumes inv: "lz_inv L D i" and c: "L c = Some k"
  shows "lz_inv (compress_step L c i k) (decompress_step D k i c) (Suc i)"
proof -
  from inv have i2: "2 \<le> i" and iv: "inverse_lex L D"
    and co: "codes_ok D (length (bin (i - 1))) i"
    and kl: "\<forall>c \<in> dom L. c \<noteq> [] \<and> length c < i"
    and pf: "prefix_free (dom L)" and cp: "complete (dom L)"
    by (simp_all add: lz_inv_def)
  have cdom: "c \<in> dom L"
    using c by auto
  have Dk: "D k = Some c"
    using inverseD [OF iv, of c k] c by simp
  define L1 where "L1 = (L(c := None))(c @ ''0'' \<mapsto> k)"
  define D1 where "D1 = D(k \<mapsto> c @ ''0'')"
  define L2 where "L2 = (if is_pow2 i then widen_values L1 else L1)"
  define D2 where "D2 = (if is_pow2 i then widen_keys D1 else D1)"
  have L': "compress_step L c i k = L2(c @ ''1'' \<mapsto> bin i)"
    by (simp add: compress_step_def Let_def L2_def L1_def)
  have D': "decompress_step D k i c = D2(bin i \<mapsto> c @ ''1'')"
    by (simp add: decompress_step_def Let_def D2_def D1_def)
  have iv1: "inverse_lex L1 D1"
    unfolding L1_def D1_def using iv pf c by (rule inverse_replace)
  have co1: "codes_ok D1 (length (bin (i - 1))) i"
    unfolding D1_def by (rule codes_ok_replace [OF co Dk])
  have iv2: "inverse_lex L2 D2"
    unfolding L2_def D2_def using iv1 by (simp add: inverse_widen)
  have co2: "codes_ok D2 (length (bin i)) i"
  proof (cases "is_pow2 i")
    case True
    then have "length (bin i) = Suc (length (bin (i - 1)))"
      using length_bin_pow2 [OF i2] by simp
    with True codes_ok_widen [OF co1] show ?thesis
      by (simp add: D2_def)
  next
    case False
    then have "length (bin i) = length (bin (i - 1))"
      using length_bin_pow2 [OF i2] by simp
    with False co1 show ?thesis
      by (simp add: D2_def)
  qed
  have "dom L2 = dom L1"
    by (simp add: L2_def dom_widen_values)
  moreover have "c @ ''1'' \<notin> dom L"
    by (rule snoc_not_in_prefix_free [OF pf cdom])
  ultimately have "c @ ''1'' \<notin> dom L2"
    by (auto simp: L1_def)
  then have fresh: "L2 (c @ ''1'') = None"
    by auto
  have iv': "inverse_lex (L2(c @ ''1'' \<mapsto> bin i)) (D2(bin i \<mapsto> c @ ''1''))"
    by (rule inverse_add [OF iv2 fresh codes_ok_fresh [OF co2]])
  have co': "codes_ok (D2(bin i \<mapsto> c @ ''1'')) (length (bin (Suc i - 1))) (Suc i)"
    using codes_ok_add [OF co2] by simp
  have dom': "dom (compress_step L c i k) = split_key (dom L) c"
    using c by (rule dom_compress_step)
  have lc: "length c < i"
    using kl cdom by blast
  have kl': "\<forall>a \<in> split_key (dom L) c. a \<noteq> [] \<and> length a < Suc i"
  proof
    fix a
    assume "a \<in> split_key (dom L) c"
    then consider "a \<in> dom L" | "a = c @ ''0''" | "a = c @ ''1''"
      by (auto simp: split_key_def)
    then show "a \<noteq> [] \<and> length a < Suc i"
    proof cases
      case 1
      with kl have "a \<noteq> [] \<and> length a < i" by blast
      then show ?thesis by simp
    next
      case 2
      with lc show ?thesis by simp
    next
      case 3
      with lc show ?thesis by simp
    qed
  qed
  show ?thesis
    unfolding lz_inv_def dom' using i2 iv' co' kl'
      prefix_free_split [OF pf cdom] complete_split [OF cp cdom]
    by (simp add: L' D')
qed

lemma lz_inv_initial: "lz_inv lexicon0 lexicon0 2"
proof -
  have d: "dom lexicon0 = {''0'', ''1''}"
    by (auto simp: lexicon0_def)
  have "inverse_lex lexicon0 lexicon0"
    by (auto simp: inverse_lex_def lexicon0_def)
  moreover have "codes_ok lexicon0 (length (bin (2 - 1))) 2"
    by (auto simp: codes_ok_def d bin_small bin_value_def)
  moreover have "prefix_free (dom lexicon0)"
    by (auto simp: prefix_free_def d)
  moreover have "complete (dom lexicon0)"
    unfolding complete_def d
  proof (intro allI impI)
    fix x
    assume "bits x"
    then show "(\<exists>c \<in> {''0'', ''1''}. prefix c x) \<or> (\<exists>c \<in> {''0'', ''1''}. strict_prefix x c)"
      by (cases x) (auto simp: bits_Cons)
  qed
  ultimately show ?thesis
    by (simp add: lz_inv_def d)
qed

section \<open>Lempel-Ziv: decompression follows compression\<close>

text \<open>
  Whatever the compressor emits for the bits it has consumed, the decompressor turns
  back into these bits, and both end with lexicons that satisfy the invariant. The
  padding loop ends, since the candidate is the beginning of a key and keys are
  shorter than the index.
\<close>

lemma no_match_Nil: "no_match L []"
  by (simp add: no_match_def)

lemma no_match_snoc: "no_match L cand \<Longrightarrow> L (cand @ [b]) = None \<Longrightarrow> no_match L (cand @ [b])"
  by (auto simp: no_match_def prefix_snoc)

lemma decompress_loop_match:
  "D (p @ [b]) = Some c \<Longrightarrow>
   decompress_loop (b # rest) D rd p i
     = decompress_loop rest (decompress_step D (p @ [b]) i c) (rd @ c) [] (Suc i)"
  by (simp add: decompress_step_def Let_def fun_upd_def)

lemma decompress_loop_skip:
  "D (p @ [b]) = None \<Longrightarrow>
   decompress_loop (b # rest) D rd p i = decompress_loop rest D rd (p @ [b]) i"
  by simp

lemma decompress_probe:
  assumes w: "\<forall>k' \<in> dom D. length k' = length k" and Dk: "D k = Some c"
  shows "p @ q = k \<Longrightarrow> q \<noteq> [] \<Longrightarrow>
         decompress_loop (q @ rest) D rd p i
           = decompress_loop rest (decompress_step D k i c) (rd @ c) [] (Suc i)"
proof (induction q arbitrary: p)
  case Nil
  then show ?case by simp
next
  case (Cons b q)
  show ?case
  proof (cases "q = []")
    case True
    with Cons.prems have "p @ [b] = k" by simp
    with Dk True show ?thesis
      using decompress_loop_match [of D p b c rest rd i] by simp
  next
    case False
    with Cons.prems have "length (p @ [b]) \<noteq> length k"
      by auto
    with w have "p @ [b] \<notin> dom D"
      by blast
    then have none: "D (p @ [b]) = None"
      by auto
    from Cons.prems have "(p @ [b]) @ q = k"
      by simp
    from Cons.IH [OF this False] none decompress_loop_skip [of D p b "q @ rest" rd i]
    show ?thesis
      by simp
  qed
qed

lemma lz_decode_one:
  assumes inv: "lz_inv L D i" and c: "L c = Some k"
  shows "decompress_loop (k @ rest) D rd [] i
           = decompress_loop rest (decompress_step D k i c) (rd @ c) [] (Suc i)"
proof -
  from inv have iv: "inverse_lex L D" and co: "codes_ok D (length (bin (i - 1))) i"
    by (simp_all add: lz_inv_def)
  have Dk: "D k = Some c"
    using inverseD [OF iv, of c k] c by simp
  then have "k \<in> dom D"
    by auto
  with co have lk: "length k = length (bin (i - 1))"
    by (simp add: codes_ok_def)
  with bin_not_Nil [of "i - 1"] have ne: "k \<noteq> []"
    by auto
  have w: "\<forall>k' \<in> dom D. length k' = length k"
    using co lk by (simp add: codes_ok_def)
  show ?thesis
    using decompress_probe [where D = D and k = k and c = c and p = "[]" and q = k
        and rest = rest and rd = rd and i = i] w Dk ne
    by simp
qed

lemma compress_loop_match:
  "L (cand @ [b]) = Some k \<Longrightarrow> i \<noteq> 0 \<Longrightarrow>
   compress_loop (b # bs) L rc cand i
     = compress_loop bs (compress_step L (cand @ [b]) i k) (rc @ k) [] (Suc i)"
  by (simp add: add_key_step)

lemma compress_loop_skip:
  "L (cand @ [b]) = None \<Longrightarrow>
   compress_loop (b # bs) L rc cand i = compress_loop bs L rc (cand @ [b]) i"
  by simp

lemma compress_sim:
  "lz_inv L D i \<Longrightarrow> bits bs \<Longrightarrow> no_match L cand \<Longrightarrow>
   \<exists>L' D' i' out consumed cand'.
     compress_loop bs L rc cand i = Inr (L', rc @ out, cand')
     \<and> cand @ bs = consumed @ cand'
     \<and> lz_inv L' D' i' \<and> no_match L' cand'
     \<and> (\<forall>rest rd. decompress_loop (out @ rest) D rd [] i
                      = decompress_loop rest D' (rd @ consumed) [] i')"
proof (induction bs arbitrary: L D i rc cand)
  case Nil
  have "compress_loop [] L rc cand i = Inr (L, rc @ [], cand) \<and> cand @ [] = [] @ cand
      \<and> lz_inv L D i \<and> no_match L cand
      \<and> (\<forall>rest rd. decompress_loop ([] @ rest) D rd [] i = decompress_loop rest D (rd @ []) [] i)"
    using Nil by simp
  then show ?case by blast
next
  case (Cons b bs)
  from Cons.prems have bs: "bits bs"
    by (simp add: bits_Cons)
  show ?case
  proof (cases "L (cand @ [b])")
    case None
    have nm: "no_match L (cand @ [b])"
      using Cons.prems(3) None by (rule no_match_snoc)
    from Cons.IH [OF Cons.prems(1) bs nm, of rc]
    obtain L' D' i' out consumed cand' where
      1: "compress_loop bs L rc (cand @ [b]) i = Inr (L', rc @ out, cand')"
      and 2: "(cand @ [b]) @ bs = consumed @ cand'"
      and 3: "lz_inv L' D' i'" "no_match L' cand'"
      and 4: "\<forall>rest rd. decompress_loop (out @ rest) D rd [] i
                = decompress_loop rest D' (rd @ consumed) [] i'"
      by blast
    have "compress_loop (b # bs) L rc cand i = Inr (L', rc @ out, cand')
        \<and> cand @ b # bs = consumed @ cand'
        \<and> lz_inv L' D' i' \<and> no_match L' cand'
        \<and> (\<forall>rest rd. decompress_loop (out @ rest) D rd [] i
                = decompress_loop rest D' (rd @ consumed) [] i')"
      using 1 2 3 4 compress_loop_skip [of L cand b bs rc i] None by simp
    then show ?thesis by blast
  next
    case (Some k)
    let ?c = "cand @ [b]"
    let ?L1 = "compress_step L ?c i k"
    let ?D1 = "decompress_step D k i ?c"
    from Cons.prems(1) have i0: "i \<noteq> 0"
      by (simp add: lz_inv_def)
    have inv1: "lz_inv ?L1 ?D1 (Suc i)"
      using Cons.prems(1) Some by (rule lz_inv_step)
    from Cons.IH [OF inv1 bs no_match_Nil, of "rc @ k"]
    obtain L' D' i' out consumed cand' where
      1: "compress_loop bs ?L1 (rc @ k) [] (Suc i) = Inr (L', (rc @ k) @ out, cand')"
      and 2: "[] @ bs = consumed @ cand'"
      and 3: "lz_inv L' D' i'" "no_match L' cand'"
      and 4: "\<forall>rest rd. decompress_loop (out @ rest) ?D1 rd [] (Suc i)
                = decompress_loop rest D' (rd @ consumed) [] i'"
      by blast
    have dec: "decompress_loop ((k @ out) @ rest) D rd [] i
        = decompress_loop rest D' (rd @ ?c @ consumed) [] i'" for rest rd
    proof -
      have "decompress_loop (k @ out @ rest) D rd [] i
          = decompress_loop (out @ rest) ?D1 (rd @ ?c) [] (Suc i)"
        using Cons.prems(1) Some by (rule lz_decode_one)
      also have "\<dots> = decompress_loop rest D' ((rd @ ?c) @ consumed) [] i'"
        using 4 by blast
      finally show ?thesis by simp
    qed
    have "compress_loop (b # bs) L rc cand i = Inr (L', rc @ (k @ out), cand')
        \<and> cand @ b # bs = (?c @ consumed) @ cand'
        \<and> lz_inv L' D' i' \<and> no_match L' cand'
        \<and> (\<forall>rest rd. decompress_loop ((k @ out) @ rest) D rd [] i
                = decompress_loop rest D' (rd @ ?c @ consumed) [] i')"
      using 1 2 3 dec compress_loop_match [of L cand b k i bs rc] Some i0 by simp
    then show ?thesis by blast
  qed
qed

lemma pad_candidate_continue:
  "x \<noteq> [] \<Longrightarrow> L x = None \<Longrightarrow> pad_candidate L x = pad_candidate L (x @ ''0'')"
  by (subst pad_candidate.simps) simp

lemma pad_candidate_stop:
  "x = [] \<or> L x \<noteq> None \<Longrightarrow> pad_candidate L x = Some x"
  by (subst pad_candidate.simps) auto

lemma pad_candidate_finds:
  assumes inv: "lz_inv L D i"
  shows "bits x \<Longrightarrow> x \<noteq> [] \<Longrightarrow> no_match L x \<Longrightarrow>
         \<exists>j. 0 < j \<and> pad_candidate L x = Some (x @ replicate j CHR ''0'')
              \<and> L (x @ replicate j CHR ''0'') \<noteq> None"
proof (induction "i - length x" arbitrary: x rule: less_induct)
  case less
  from inv have kl: "\<forall>c \<in> dom L. c \<noteq> [] \<and> length c < i" and cp: "complete (dom L)"
    by (simp_all add: lz_inv_def)
  have none: "L x = None"
    using less.prems(2,3) by (simp add: no_match_def)
  have "\<not> (\<exists>c \<in> dom L. prefix c x)"
  proof
    assume "\<exists>c \<in> dom L. prefix c x"
    then obtain c where c: "c \<in> dom L" "prefix c x" by blast
    with kl have "c \<noteq> []" by blast
    with c(2) less.prems(3) have "L c = None" by (simp add: no_match_def)
    with c(1) show False by auto
  qed
  with cp less.prems(1) obtain c where c: "c \<in> dom L" "strict_prefix x c"
    unfolding complete_def by blast
  then have "length x < length c"
    by (metis prefix_length_less)
  moreover from kl c(1) have "length c < i" by blast
  ultimately have lt: "length x < i" by simp
  have step: "pad_candidate L x = pad_candidate L (x @ ''0'')"
    using less.prems(2) none by (rule pad_candidate_continue)
  show ?case
  proof (cases "L (x @ ''0'')")
    case (Some k)
    then have "pad_candidate L (x @ ''0'') = Some (x @ ''0'')"
      by (intro pad_candidate_stop) simp
    with step Some have "0 < (1::nat) \<and> pad_candidate L x = Some (x @ replicate 1 CHR ''0'')
        \<and> L (x @ replicate 1 CHR ''0'') \<noteq> None"
      by simp
    then show ?thesis by blast
  next
    case None
    have m: "i - length (x @ ''0'') < i - length x"
      using lt by simp
    have b: "bits (x @ ''0'')"
      using less.prems(1) by (simp add: bits_append bits_Cons bits_Nil)
    have nm: "no_match L (x @ ''0'')"
      using less.prems(3) None by (rule no_match_snoc)
    from less.hyps [OF m b _ nm] obtain j where
      j: "pad_candidate L (x @ ''0'') = Some ((x @ ''0'') @ replicate j CHR ''0'')"
         "L ((x @ ''0'') @ replicate j CHR ''0'') \<noteq> None"
      by auto
    have "(x @ ''0'') @ replicate j CHR ''0'' = x @ replicate (Suc j) CHR ''0''"
      by simp
    with j step have "0 < Suc j \<and> pad_candidate L x = Some (x @ replicate (Suc j) CHR ''0'')
        \<and> L (x @ replicate (Suc j) CHR ''0'') \<noteq> None"
      by simp
    then show ?thesis by blast
  qed
qed

lemma lz_core:
  assumes "bits b"
  shows "\<exists>c j. compress_data b = Some (Inr c)
              \<and> decompress_data c = b @ replicate j CHR ''0''
              \<and> (j = 0) = (leftover b = [])
              \<and> padded b = Some (leftover b @ replicate j CHR ''0'')"
proof -
  from compress_sim [OF lz_inv_initial assms no_match_Nil, of "[]"]
  obtain L D i out consumed cand where
    loop: "compress_loop b lexicon0 [] [] 2 = Inr (L, out, cand)"
    and split: "b = consumed @ cand"
    and inv: "lz_inv L D i" and nm: "no_match L cand"
    and dec: "\<forall>rest rd. decompress_loop (out @ rest) lexicon0 rd [] 2
                = decompress_loop rest D (rd @ consumed) [] i"
    by auto
  have left: "leftover b = cand"
    by (simp add: leftover_def loop)
  show ?thesis
  proof (cases "cand = []")
    case True
    then have "pad_candidate L cand = Some []"
      by (simp add: pad_candidate_stop)
    then have "compress_data b = Some (Inr out)"
      by (simp add: compress_data_def loop)
    moreover have "decompress_data out = b"
      using dec [rule_format, of "[]" "[]"] split True by (simp add: decompress_data_def)
    ultimately have "compress_data b = Some (Inr out)
        \<and> decompress_data out = b @ replicate 0 CHR ''0'' \<and> ((0::nat) = 0) = (leftover b = [])
        \<and> padded b = Some (leftover b @ replicate 0 CHR ''0'')"
      using left True \<open>pad_candidate L cand = Some []\<close> by (simp add: padded_def loop)
    then show ?thesis by blast
  next
    case False
    have "bits cand"
      using assms split by (simp add: bits_append)
    from pad_candidate_finds [OF inv this False nm] obtain j k where
      j: "0 < j" "pad_candidate L cand = Some (cand @ replicate j CHR ''0'')"
      and k: "L (cand @ replicate j CHR ''0'') = Some k"
      by auto
    let ?p = "cand @ replicate j CHR ''0''"
    have "?p \<noteq> []"
      using False by simp
    then have c: "compress_data b = Some (Inr (out @ k))"
      using j(2) k by (simp add: compress_data_def loop)
    have "decompress_loop (out @ k) lexicon0 [] [] 2 = decompress_loop k D consumed [] i"
      using dec [rule_format, of k "[]"] by simp
    also have "\<dots> = decompress_loop (k @ []) D consumed [] i"
      by simp
    also have "\<dots> = decompress_loop [] (decompress_step D k i ?p) (consumed @ ?p) [] (Suc i)"
      using inv k by (rule lz_decode_one)
    finally have "decompress_data (out @ k) = b @ replicate j CHR ''0''"
      by (simp add: decompress_data_def split)
    with c j left False have "compress_data b = Some (Inr (out @ k))
        \<and> decompress_data (out @ k) = b @ replicate j CHR ''0'' \<and> (j = 0) = (leftover b = [])
        \<and> padded b = Some (leftover b @ replicate j CHR ''0'')"
      by (simp add: padded_def loop)
    then show ?thesis by blast
  qed
qed

text \<open>
  Claim C10. For every non-empty bit string \<open>b\<close>, \<open>compress_data\<close> returns a string,
  and \<open>decompress_data\<close> of it is \<open>b\<close> followed by zeros only: as many as the padding
  loop of \<open>compress_data\<close> has appended to the candidate left at the end of the input.
\<close>

theorem lz_round_trip_padded:
  assumes "bits b" and "b \<noteq> []"
  shows "\<exists>c j. compress_data b = Some (Inr c)
              \<and> prefix b (decompress_data c)
              \<and> decompress_data c = b @ replicate j CHR ''0''
              \<and> padded b = Some (leftover b @ replicate j CHR ''0'')"
proof -
  from lz_core [OF assms(1)] obtain c j where
    "compress_data b = Some (Inr c)" "decompress_data c = b @ replicate j CHR ''0''"
    "padded b = Some (leftover b @ replicate j CHR ''0'')"
    by blast
  then have "compress_data b = Some (Inr c) \<and> prefix b (decompress_data c)
      \<and> decompress_data c = b @ replicate j CHR ''0''
      \<and> padded b = Some (leftover b @ replicate j CHR ''0'')"
    by simp
  then show ?thesis by blast
qed

text \<open>The theorem at \<open>0000\<close>: the candidate \<open>0\<close> is padded with two zeros.\<close>

theorem lz_round_trip_padded_witness:
  "bits ''0000'' \<and> ''0000'' \<noteq> []
   \<and> compress_data ''0000'' = Some (Inr ''00000'')
   \<and> prefix ''0000'' (decompress_data ''00000'')
   \<and> decompress_data ''00000'' = ''0000'' @ ''00''
   \<and> padded ''0000'' = Some (''0'' @ ''00'')"
proof -
  have b: "bits ''0000''"
    by (simp add: bits_def)
  have ne: "''0000'' \<noteq> []"
    by simp
  have fwd: "compress_data ''0000'' = Some (Inr ''00000'')"
    by code_simp
  have pad: "padded ''0000'' = Some ''000''" "leftover ''0000'' = ''0''"
    by code_simp+
  from lz_round_trip_padded [OF b ne] obtain c j where
    c: "compress_data ''0000'' = Some (Inr c)" "prefix ''0000'' (decompress_data c)"
    "decompress_data c = ''0000'' @ replicate j CHR ''0''"
    "padded ''0000'' = Some (leftover ''0000'' @ replicate j CHR ''0'')"
    by blast
  from c(1) fwd have c5: "c = ''00000''"
    by simp
  from c(4) pad have "replicate j CHR ''0'' = ''00''"
    by simp
  with c(2,3) c5 b fwd pad show ?thesis
    by simp
qed

text \<open>
  Claim C1, as the code has it. For every non-empty bit string \<open>b\<close>, \<open>compress_data\<close>
  returns a string; \<open>decompress_data\<close> of it is \<open>b\<close> when the scan of \<open>b\<close> ends with an
  empty candidate, and otherwise it is \<open>b\<close> followed by at least one zero.
\<close>

theorem lz_round_trip_exact:
  assumes "bits b" and "b \<noteq> []"
  shows "\<exists>c. compress_data b = Some (Inr c)
            \<and> (if leftover b = [] then decompress_data c = b
                else \<exists>j. 0 < j \<and> decompress_data c = b @ replicate j CHR ''0'')"
proof -
  from lz_core [OF assms(1)] obtain c j where
    c: "compress_data b = Some (Inr c)" "decompress_data c = b @ replicate j CHR ''0''"
    "(j = 0) = (leftover b = [])"
    by blast
  show ?thesis
  proof (cases "leftover b = []")
    case True
    with c show ?thesis by simp
  next
    case False
    with c(3) have "0 < j" by simp
    with c(1,2) False show ?thesis by auto
  qed
qed

text \<open>The theorem at \<open>0110100\<close>, whose scan ends with an empty candidate.\<close>

theorem lz_round_trip_exact_witness:
  "bits ''0110100'' \<and> ''0110100'' \<noteq> [] \<and> leftover ''0110100'' = []
   \<and> compress_data ''0110100'' = Some (Inr ''00101001'')
   \<and> decompress_data ''00101001'' = ''0110100''"
proof -
  have b: "bits ''0110100''"
    by (simp add: bits_def)
  have ne: "''0110100'' \<noteq> []"
    by simp
  have fwd: "compress_data ''0110100'' = Some (Inr ''00101001'')"
    by code_simp
  have left: "leftover ''0110100'' = []"
    by code_simp
  from lz_round_trip_exact [OF b ne] obtain c where
    "compress_data ''0110100'' = Some (Inr c)"
    "if leftover ''0110100'' = [] then decompress_data c = ''0110100''
     else \<exists>j. 0 < j \<and> decompress_data c = ''0110100'' @ replicate j CHR ''0''"
    by blast
  with fwd left have "decompress_data ''00101001'' = ''0110100''"
    by simp
  with b fwd left show ?thesis
    by simp
qed

text \<open>
  Claim C1 as stated fails: \<open>00\<close> is compressed to \<open>000\<close>, which is decompressed to
  \<open>000\<close>.
\<close>

theorem lz_round_trip_counterexample:
  "compress_data ''00'' = Some (Inr ''000'') \<and> decompress_data ''000'' = ''000''
   \<and> decompress_data ''000'' \<noteq> ''00''"
  by code_simp

end
